theory Spec2Isabelle
  imports Main
begin

section \<open>Data model of \<open>SudokuGame\<close>\<close>

text \<open>
  \<open>std::vector<std::vector<int>>\<close> is a list of rows.  Every grid the class ever holds is
  built with \<open>SIZE\<close> rows of \<open>SIZE\<close> cells (the constructor, \<open>solution.assign\<close>, copies of
  those), which \<open>wf_grid\<close> records.  Cell values are C++ \<open>int\<close>; no arithmetic is done on them,
  so they are modelled by \<open>int\<close>.  The constants \<open>SIZE = 9\<close> and \<open>EMPTY = 0\<close> are written out.
\<close>

type_synonym grid = "int list list"

definition wf_grid :: "grid \<Rightarrow> bool" where
  "wf_grid g = (length g = 9 \<and> list_all (\<lambda>row. length row = 9) g)"

text \<open>\<open>grid[row][col]\<close> and \<open>grid[row][col] = v\<close>.\<close>

definition cell :: "grid \<Rightarrow> nat \<Rightarrow> nat \<Rightarrow> int" where
  "cell g row col = g ! row ! col"

definition setCell :: "grid \<Rightarrow> nat \<Rightarrow> nat \<Rightarrow> int \<Rightarrow> grid" where
  "setCell g row col v = g[row := (g ! row)[col := v]]"

definition emptyGrid :: grid where
  "emptyGrid = replicate 9 (replicate 9 0)"

text \<open>
  The random source \<open>std::mt19937 rng\<close> is the sequence of raw draws still to come; a
  sequence that has run out keeps giving 0.
\<close>

type_synonym rng = "nat list"

fun draw :: "rng \<Rightarrow> nat \<times> rng" where
  "draw [] = (0, [])"
| "draw (x # xs) = (x, xs)"

text \<open>
  Modelled from the library contract: \<open>std::shuffle(first, last, rng)\<close> rearranges the range
  into a permutation chosen by the random source.  The model draws, for each output place in
  turn, which of the remaining elements goes there; every permutation is produced by some
  sequence of draws, and the all-zero sequence keeps the order.
\<close>

fun shuffle :: "'a list \<Rightarrow> rng \<Rightarrow> 'a list \<times> rng" where
  "shuffle [] r = ([], r)"
| "shuffle (x # xs) r =
     (let (d, r1) = draw r;
          k = d mod length (x # xs);
          (ys, r2) = shuffle (take k (x # xs) @ drop (Suc k) (x # xs)) r1
      in ((x # xs) ! k # ys, r2))"

text \<open>\<open>std::uniform_int_distribution<int>(lo, hi)(rng)\<close>: one draw, reduced to the range.\<close>

definition uniform_int :: "int \<Rightarrow> int \<Rightarrow> rng \<Rightarrow> int \<times> rng" where
  "uniform_int lo hi r = (let (d, r1) = draw r in (lo + int d mod (hi - lo + 1), r1))"

record game =
  board :: grid
  solution :: grid
  fixed :: "bool list list"
  rng :: rng

text \<open>The state the constructor builds (with any seed).\<close>

definition newGameState :: "rng \<Rightarrow> game" where
  "newGameState r =
     \<lparr>board = emptyGrid, solution = emptyGrid,
      fixed = replicate 9 (replicate 9 False), rng = r\<rparr>"

datatype Difficulty = EASY | MEDIUM | HARD | EXPERT

fun difficultyValue :: "Difficulty \<Rightarrow> int" where
  "difficultyValue EASY = 35"
| "difficultyValue MEDIUM = 30"
| "difficultyValue HARD = 25"
| "difficultyValue EXPERT = 20"

text \<open>\<open>struct Move\<close>.\<close>

record Move =
  mrow :: int
  mcol :: int
  mvalue :: int

definition mkMove :: "int \<Rightarrow> int \<Rightarrow> int \<Rightarrow> Move" where
  "mkMove r c v = \<lparr>mrow = r, mcol = c, mvalue = v\<rparr>"

section \<open>Constraint checker\<close>

text \<open>
  The three scans of \<open>isValidMove\<close> and \<open>isValidInGrid\<close> (the two functions repeat them word
  for word): each is a loop that returns \<open>false\<close> at the first other cell holding \<open>num\<close>.
\<close>

definition rowConflict :: "grid \<Rightarrow> nat \<Rightarrow> nat \<Rightarrow> int \<Rightarrow> bool" where
  "rowConflict g row col num = list_ex (\<lambda>c. c \<noteq> col \<and> cell g row c = num) [0..<9]"

definition colConflict :: "grid \<Rightarrow> nat \<Rightarrow> nat \<Rightarrow> int \<Rightarrow> bool" where
  "colConflict g row col num = list_ex (\<lambda>r. r \<noteq> row \<and> cell g r col = num) [0..<9]"

definition boxConflict :: "grid \<Rightarrow> nat \<Rightarrow> nat \<Rightarrow> int \<Rightarrow> bool" where
  "boxConflict g row col num =
     (let boxRow = (row div 3) * 3; boxCol = (col div 3) * 3
      in list_ex (\<lambda>r. list_ex (\<lambda>c. (r \<noteq> row \<or> c \<noteq> col) \<and> cell g r c = num)
                          [boxCol..<boxCol + 3])
                 [boxRow..<boxRow + 3])"

definition isValidInGrid :: "grid \<Rightarrow> nat \<Rightarrow> nat \<Rightarrow> int \<Rightarrow> bool" where
  "isValidInGrid g row col num =
     (if rowConflict g row col num then False
      else if colConflict g row col num then False
      else if boxConflict g row col num then False
      else True)"

definition isValidMove :: "game \<Rightarrow> int \<Rightarrow> int \<Rightarrow> int \<Rightarrow> bool" where
  "isValidMove s row col num =
     (if row < 0 \<or> row \<ge> 9 \<or> col < 0 \<or> col \<ge> 9 \<or> num < 1 \<or> num > 9 then False
      else if rowConflict (board s) (nat row) (nat col) num then False
      else if colConflict (board s) (nat row) (nat col) num then False
      else if boxConflict (board s) (nat row) (nat col) num then False
      else True)"

definition isComplete :: "game \<Rightarrow> bool" where
  "isComplete s = list_all (\<lambda>r. list_all (\<lambda>c. cell (board s) r c \<noteq> 0) [0..<9]) [0..<9]"

section \<open>Candidates and the MRV cell choice\<close>

definition getCandidates :: "grid \<Rightarrow> nat \<Rightarrow> nat \<Rightarrow> int list" where
  "getCandidates g row col = filter (\<lambda>num. isValidInGrid g row col num) [1..9]"

text \<open>The cells in the order of the nested \<open>for r\<close>, \<open>for c\<close> loops.\<close>

definition allPositions :: "(nat \<times> nat) list" where
  "allPositions = concat (map (\<lambda>r. map (\<lambda>c. (r, c)) [0..<9]) [0..<9])"

text \<open>
  \<open>findBestCell\<close>: the scan carries \<open>minCandidates\<close> and the best cell so far (\<open>found\<close> with
  \<open>row\<close>, \<open>col\<close>), and returns at once at a cell with one candidate.
\<close>

fun findBestLoop :: "grid \<Rightarrow> (nat \<times> nat) list \<Rightarrow> nat \<Rightarrow> (nat \<times> nat) option
    \<Rightarrow> (nat \<times> nat) option" where
  "findBestLoop g [] minCandidates best = best"
| "findBestLoop g ((r, c) # ps) minCandidates best =
     (if cell g r c = 0 then
        (let candidateCount = length (getCandidates g r c)
         in if candidateCount < minCandidates then
              (if candidateCount = 1 then Some (r, c)
               else findBestLoop g ps candidateCount (Some (r, c)))
            else findBestLoop g ps minCandidates best)
      else findBestLoop g ps minCandidates best)"

definition findBestCell :: "grid \<Rightarrow> (nat \<times> nat) option" where
  "findBestCell g = findBestLoop g allPositions (9 + 1) None"

section \<open>Backtracking solver\<close>

text \<open>
  \<open>solveBacktrack\<close> recurses once per cell it fills.  The first argument bounds the depth of
  that recursion; \<open>None\<close> means the bound was too small.  The result is the returned flag, the
  grid as the call leaves it, and the random source as the call leaves it.  \<open>solveLoop\<close> is
  the \<open>for (int num : candidates)\<close> loop.
\<close>

fun solveBacktrack :: "nat \<Rightarrow> grid \<Rightarrow> rng \<Rightarrow> (bool \<times> grid \<times> rng) option"
  and solveLoop :: "nat \<Rightarrow> nat \<Rightarrow> nat \<Rightarrow> int list \<Rightarrow> grid \<Rightarrow> rng
    \<Rightarrow> (bool \<times> grid \<times> rng) option" where
  "solveBacktrack n g r =
     (case findBestCell g of
        None \<Rightarrow> Some (True, g, r)
      | Some (row, col) \<Rightarrow>
          (case n of
             0 \<Rightarrow> None
           | Suc m \<Rightarrow>
               (let (candidates, r1) = shuffle (getCandidates g row col) r
                in solveLoop m row col candidates g r1)))"
| "solveLoop m row col [] g r = Some (False, g, r)"
| "solveLoop m row col (num # nums) g r =
     (if isValidInGrid g row col num then
        (case solveBacktrack m (setCell g row col num) r of
           None \<Rightarrow> None
         | Some (True, g1, r1) \<Rightarrow> Some (True, g1, r1)
         | Some (False, g1, r1) \<Rightarrow> solveLoop m row col nums (setCell g1 row col 0) r1)
      else solveLoop m row col nums g r)"

section \<open>Uniqueness counter\<close>

text \<open>
  \<open>countSolutions(grid, count, limit)\<close> works on the caller's grid and counter through
  references; the model returns both.  The first argument bounds the recursion depth as in
  \<open>solveBacktrack\<close>.  \<open>countLoop\<close> is the loop over the candidates.
\<close>

fun countSolutions :: "nat \<Rightarrow> grid \<Rightarrow> int \<Rightarrow> int \<Rightarrow> (grid \<times> int) option"
  and countLoop :: "nat \<Rightarrow> nat \<Rightarrow> nat \<Rightarrow> int list \<Rightarrow> grid \<Rightarrow> int \<Rightarrow> int
    \<Rightarrow> (grid \<times> int) option" where
  "countSolutions n g count limit =
     (if count \<ge> limit then Some (g, count)
      else
        (case findBestCell g of
           None \<Rightarrow> Some (g, count + 1)
         | Some (row, col) \<Rightarrow>
             (case n of
                0 \<Rightarrow> None
              | Suc m \<Rightarrow> countLoop m row col (getCandidates g row col) g count limit)))"
| "countLoop m row col [] g count limit = Some (g, count)"
| "countLoop m row col (num # nums) g count limit =
     (if count \<ge> limit then Some (g, count)
      else
        (case countSolutions m (setCell g row col num) count limit of
           None \<Rightarrow> None
         | Some (g1, count1) \<Rightarrow>
             countLoop m row col nums (setCell g1 row col 0) count1 limit))"

text \<open>
  \<open>hasUniqueSolution\<close> copies the board into \<open>testGrid\<close> and counts on the copy, so the game
  state is unchanged and only the flag is returned.  A grid has at most \<open>SIZE * SIZE\<close> empty
  cells, which bounds the depth.
\<close>

definition hasUniqueSolution :: "game \<Rightarrow> bool option" where
  "hasUniqueSolution s =
     (case countSolutions 81 (board s) 0 2 of
        None \<Rightarrow> None
      | Some (testGrid, solutionCount) \<Rightarrow> Some (solutionCount = 1))"

section \<open>Puzzle generator\<close>

datatype error = GenerationFailure

definition generateSolution :: "game \<Rightarrow> (bool \<times> game) option" where
  "generateSolution s =
     (case solveBacktrack 81 emptyGrid (rng s) of
        None \<Rightarrow> None
      | Some (ok, g, r) \<Rightarrow> Some (ok, s\<lparr>solution := g, rng := r\<rparr>))"

definition setFixed :: "bool list list \<Rightarrow> nat \<Rightarrow> nat \<Rightarrow> bool \<Rightarrow> bool list list" where
  "setFixed f row col v = f[row := (f ! row)[col := v]]"

text \<open>The removal loop of \<open>createPuzzle\<close>, over the positions it visits.\<close>

fun removeLoop :: "(nat \<times> nat) list \<Rightarrow> game \<Rightarrow> game option" where
  "removeLoop [] s = Some s"
| "removeLoop ((row, col) # ps) s =
     (let backup = cell (board s) row col;
          s1 = s\<lparr>board := setCell (board s) row col 0,
                 fixed := setFixed (fixed s) row col False\<rparr>
      in (case hasUniqueSolution s1 of
            None \<Rightarrow> None
          | Some True \<Rightarrow> removeLoop ps s1
          | Some False \<Rightarrow>
              removeLoop ps (s1\<lparr>board := setCell (board s1) row col backup,
                                fixed := setFixed (fixed s1) row col True\<rparr>)))"

text \<open>
  \<open>createPuzzle\<close>: \<open>Inl GenerationFailure\<close> is the \<open>std::runtime_error\<close> it throws.  The loop
  runs for \<open>i < cellsToRemove && i < positions.size()\<close>, that is over the first
  \<open>cellsToRemove\<close> shuffled positions (none when that number is not positive).
\<close>

definition createPuzzle :: "Difficulty \<Rightarrow> game \<Rightarrow> (error + game) option" where
  "createPuzzle difficulty s =
     (case generateSolution s of
        None \<Rightarrow> None
      | Some (False, s1) \<Rightarrow> Some (Inl GenerationFailure)
      | Some (True, s1) \<Rightarrow>
          (let s2 = s1\<lparr>board := solution s1, fixed := replicate 9 (replicate 9 True)\<rparr>;
               (positions, r1) = shuffle allPositions (rng s2);
               (offset, r2) = uniform_int 0 5 r1;
               targetClues = difficultyValue difficulty + offset;
               cellsToRemove = 9 * 9 - targetClues
           in map_option Inr
                (removeLoop (take (nat cellsToRemove) positions) (s2\<lparr>rng := r2\<rparr>))))"

section \<open>Hints and player moves\<close>

definition getHintForCell :: "game \<Rightarrow> int \<Rightarrow> int \<Rightarrow> Move" where
  "getHintForCell s row col =
     (if row < 0 \<or> row \<ge> 9 \<or> col < 0 \<or> col \<ge> 9 then mkMove (-1) (-1) (-1)
      else if cell (board s) (nat row) (nat col) \<noteq> 0 then mkMove (-1) (-1) (-2)
      else if fixed s ! nat row ! nat col then mkMove (-1) (-1) (-3)
      else mkMove row col (cell (solution s) (nat row) (nat col)))"

text \<open>
  \<open>makeMove\<close>: the body of the \<open>try\<close> block either throws or returns \<open>true\<close> with the board
  written; no statement before a \<open>throw\<close> writes to the game.  The handler catches every
  \<open>std::exception\<close> (both kinds thrown here are) and returns \<open>false\<close>.
\<close>

datatype exception = out_of_range string | invalid_argument string

definition makeMoveTry :: "game \<Rightarrow> int \<Rightarrow> int \<Rightarrow> int \<Rightarrow> exception + game" where
  "makeMoveTry s row col v =
     (if row < 0 \<or> row \<ge> 9 \<or> col < 0 \<or> col \<ge> 9 then
        Inl (out_of_range ''Position out of bounds'')
      else if fixed s ! nat row ! nat col then
        Inl (invalid_argument ''Cannot modify fixed cell'')
      else if v < 0 \<or> v > 9 then
        Inl (invalid_argument ''Invalid value'')
      else if v = 0 then
        Inr (s\<lparr>board := setCell (board s) (nat row) (nat col) 0\<rparr>)
      else if \<not> isValidMove s row col v then
        Inl (invalid_argument ''Invalid move - conflicts with Sudoku rules'')
      else Inr (s\<lparr>board := setCell (board s) (nat row) (nat col) v\<rparr>))"

definition makeMove :: "game \<Rightarrow> int \<Rightarrow> int \<Rightarrow> int \<Rightarrow> bool \<times> game" where
  "makeMove s row col v =
     (case makeMoveTry s row col v of
        Inl e \<Rightarrow> (False, s)
      | Inr s1 \<Rightarrow> (True, s1))"

definition solvePuzzle :: "game \<Rightarrow> (bool \<times> game) option" where
  "solvePuzzle s =
     (case solveBacktrack 81 (board s) (rng s) of
        None \<Rightarrow> None
      | Some (ok, g, r) \<Rightarrow> Some (ok, s\<lparr>board := g, rng := r\<rparr>))"

section \<open>Notions of the specification and example states\<close>

text \<open>
  Two cells share a unit when they lie in the same row, the same column or the same
  3x3 box.
\<close>

definition sameUnit :: "nat \<Rightarrow> nat \<Rightarrow> nat \<Rightarrow> nat \<Rightarrow> bool" where
  "sameUnit row col r c = (r = row \<or> c = col \<or> (r div 3 = row div 3 \<and> c div 3 = col div 3))"

text \<open>
  The specification's words for grids, written over the row-major list of cells so that they
  can be evaluated.  A grid is complete when no cell is empty.  It is legal when every filled
  cell holds a value in \<open>1..9\<close> that no other cell of its row, column or box holds (the
  specification's grid invariant).  A grid \<open>h\<close> extends \<open>g\<close> when it agrees with \<open>g\<close> on every
  filled cell of \<open>g\<close>.  The completions of \<open>g\<close> are the complete legal 9x9 grids extending it.
\<close>

definition completeGrid :: "grid \<Rightarrow> bool" where
  "completeGrid g = list_all (\<lambda>(r, c). cell g r c \<noteq> 0) allPositions"

definition legalGrid :: "grid \<Rightarrow> bool" where
  "legalGrid g =
     list_all (\<lambda>(r, c). cell g r c = 0 \<or>
                 (1 \<le> cell g r c \<and> cell g r c \<le> 9 \<and> isValidInGrid g r c (cell g r c)))
       allPositions"

definition extendsGrid :: "grid \<Rightarrow> grid \<Rightarrow> bool" where
  "extendsGrid g h = list_all (\<lambda>(r, c). cell g r c = 0 \<or> cell h r c = cell g r c) allPositions"

definition completion :: "grid \<Rightarrow> grid \<Rightarrow> bool" where
  "completion g h = (wf_grid h \<and> completeGrid h \<and> legalGrid h \<and> extendsGrid g h)"

definition completions :: "grid \<Rightarrow> grid set" where
  "completions g = {h. completion g h}"

text \<open>The number of empty cells, and the number of filled cells (the clue count of a puzzle).\<close>

definition numEmpty :: "grid \<Rightarrow> nat" where
  "numEmpty g = length (filter (\<lambda>(r, c). cell g r c = 0) allPositions)"

definition numClues :: "grid \<Rightarrow> nat" where
  "numClues g = length (filter (\<lambda>(r, c). cell g r c \<noteq> 0) allPositions)"

text \<open>Scenario B of the specification: cells (0,0) and (0,1) both hold 5.\<close>

definition scenarioB :: game where
  "scenarioB = (newGameState [])\<lparr>board := setCell (setCell emptyGrid 0 0 5) 0 1 5\<rparr>"

text \<open>A game whose cell (0,0) is a clue holding 5.\<close>

definition clueState :: game where
  "clueState = (newGameState [])\<lparr>board := setCell emptyGrid 0 0 5,
      solution := setCell emptyGrid 0 0 5,
      fixed := setFixed (replicate 9 (replicate 9 False)) 0 0 True\<rparr>"

text \<open>A solved grid.\<close>

definition solvedGrid :: grid where
  "solvedGrid =
   [[1, 2, 3, 4, 5, 6, 7, 8, 9], [4, 5, 6, 7, 8, 9, 1, 2, 3],
    [7, 8, 9, 1, 2, 3, 4, 5, 6], [2, 3, 1, 6, 7, 4, 8, 9, 5],
    [8, 7, 5, 9, 1, 2, 3, 6, 4], [6, 9, 4, 5, 3, 8, 2, 1, 7],
    [3, 1, 7, 2, 6, 5, 9, 4, 8], [5, 4, 2, 8, 9, 7, 6, 3, 1],
    [9, 6, 8, 3, 4, 1, 5, 7, 2]]"

text \<open>The solved grid with cells (0,0) and (4,4) cleared.\<close>

definition twoEmpty :: grid where
  "twoEmpty = setCell (setCell solvedGrid 0 0 0) 4 4 0"

text \<open>
  A legal grid with no completion: cell (0,0) is empty and needs 1, which column 0 already
  holds at (3,0).
\<close>

definition deadGrid :: grid where
  "deadGrid = setCell (setCell (setCell solvedGrid 0 0 0) 3 2 0) 3 0 1"

text \<open>A full grid that is not legal: every cell holds 1.\<close>

definition onesGrid :: grid where
  "onesGrid = replicate 9 (replicate 9 1)"

section \<open>Notions used for the puzzle generator\<close>

text \<open>
  The fixed mask has the shape of the grid.  \<open>cleared\<close> and \<open>reverted\<close> are the two states
  one pass of the removal loop can leave: the cell tentatively cleared, or the clear undone.
  \<open>fixedMatches\<close> says that the mask marks exactly the filled cells.  \<open>removePre S ps s\<close>
  collects what holds whenever the loop is about to visit the positions \<open>ps\<close>: the board is
  cut from the solution \<open>S\<close>, has passed the uniqueness check, and the cells still to visit
  are distinct and filled.
\<close>

definition wf_fixed :: "bool list list \<Rightarrow> bool" where
  "wf_fixed f = (length f = 9 \<and> list_all (\<lambda>row. length row = 9) f)"

definition cleared :: "game \<Rightarrow> nat \<Rightarrow> nat \<Rightarrow> game" where
  "cleared s row col =
     s\<lparr>board := setCell (board s) row col 0, fixed := setFixed (fixed s) row col False\<rparr>"

definition reverted :: "game \<Rightarrow> nat \<Rightarrow> nat \<Rightarrow> game" where
  "reverted s row col =
     (cleared s row col)\<lparr>board := setCell (board (cleared s row col)) row col (cell (board s) row col),
        fixed := setFixed (fixed (cleared s row col)) row col True\<rparr>"

definition fixedMatches :: "game \<Rightarrow> bool" where
  "fixedMatches s =
     (wf_fixed (fixed s) \<and>
      list_all (\<lambda>(r, c). fixed s ! r ! c = (cell (board s) r c \<noteq> 0)) allPositions)"

definition removePre :: "grid \<Rightarrow> (nat \<times> nat) list \<Rightarrow> game \<Rightarrow> bool" where
  "removePre S ps s =
     (wf_grid (board s) \<and> completion (board s) S \<and> solution s = S \<and>
      hasUniqueSolution s = Some True \<and> fixedMatches s \<and> distinct ps \<and>
      list_all (\<lambda>(r, c). r < 9 \<and> c < 9 \<and> cell (board s) r c \<noteq> 0) ps)"

text \<open>
  A random sequence that steers the solver: at every cell \<open>findBestCell\<close> picks, the first
  draw of the shuffle selects the value the target grid \<open>t\<close> holds there and the remaining
  draws are 0, so that the value of \<open>t\<close> is tried first.
\<close>

fun indexOf :: "'a \<Rightarrow> 'a list \<Rightarrow> nat" where
  "indexOf x [] = 0"
| "indexOf x (y # ys) = (if x = y then 0 else Suc (indexOf x ys))"

fun guide :: "nat \<Rightarrow> grid \<Rightarrow> grid \<Rightarrow> rng" where
  "guide 0 g t = []"
| "guide (Suc m) g t =
     (case findBestCell g of
        None \<Rightarrow> []
      | Some (row, col) \<Rightarrow>
          (indexOf (cell t row col) (getCandidates g row col)
             # replicate (length (getCandidates g row col) - 1) 0)
          @ guide m (setCell g row col (cell t row col)) t)"

text \<open>
  The random sequence of the run studied below: 266 draws of 0, then a 5.  With draws of 0
  every shuffle keeps the order, so the solver tries the candidates in increasing order; it
  generates \<open>solvedGrid\<close> with the first 185 draws.  The next 81 draws leave the positions
  in row-major order, and the draw for the offset is 5, so that an Expert puzzle aims at 25
  clues and the loop visits the first 56 positions.
\<close>

definition zerosThenFive :: rng where
  "zerosThenFive = replicate 266 0 @ [5]"

text \<open>
  Six complete legal grids that differ from \<open>solvedGrid\<close> on six pairwise disjoint sets of
  cells, all among the first 56 positions: two values swapped on a rectangle, or the parts
  of two rows in three columns exchanged.
\<close>

definition altGrids :: "grid list" where
  "altGrids =
   [setCell (setCell (setCell (setCell solvedGrid 1 0 6) 1 2 4) 5 0 4) 5 2 6,
    setCell (setCell (setCell (setCell solvedGrid 3 3 9) 3 7 6) 4 3 6) 4 7 9,
    setCell (setCell (setCell (setCell solvedGrid 1 6 2) 1 7 1) 5 6 1) 5 7 2,
    setCell (setCell (setCell (setCell (setCell (setCell solvedGrid
      0 1 8) 0 4 2) 0 7 5) 2 1 2) 2 4 5) 2 7 8,
    setCell (setCell (setCell (setCell (setCell (setCell solvedGrid
      0 2 9) 0 5 3) 0 8 6) 2 2 3) 2 5 6) 2 8 9,
    setCell (setCell (setCell (setCell (setCell (setCell solvedGrid
      0 0 7) 0 3 1) 0 6 4) 2 0 1) 2 3 4) 2 6 7]"

definition unavoidable :: "(nat \<times> nat) list list" where
  "unavoidable =
   [[(1, 0), (1, 2), (5, 0), (5, 2)],
    [(3, 3), (3, 7), (4, 3), (4, 7)],
    [(1, 6), (1, 7), (5, 6), (5, 7)],
    [(0, 1), (0, 4), (0, 7), (2, 1), (2, 4), (2, 7)],
    [(0, 2), (0, 5), (0, 8), (2, 2), (2, 5), (2, 8)],
    [(0, 0), (0, 3), (0, 6), (2, 0), (2, 3), (2, 6)]]"

definition isAlternative :: "grid \<Rightarrow> (nat \<times> nat) list \<Rightarrow> bool" where
  "isAlternative t u =
     (wf_grid t \<and> completeGrid t \<and> legalGrid t \<and> t \<noteq> solvedGrid \<and>
      list_all (\<lambda>(a, b). cell t a b = cell solvedGrid a b \<or> (a, b) \<in> set u) allPositions \<and>
      list_all (\<lambda>p. p \<in> set (take 56 allPositions)) u)"

section \<open>The constraint checker\<close>

lemma all_lt9: "(\<forall>r<9. P r) = list_all P [0..<9]"
  by (auto simp: list_all_iff)

lemma in_box_iff: "((k div 3) * 3 \<le> r \<and> r < (k div 3) * 3 + 3) = (r div 3 = k div (3::nat))"
  by auto

lemma div3_lt9: "k < 9 \<Longrightarrow> r div 3 = k div (3::nat) \<Longrightarrow> r < 9"
  by arith

lemma rowConflict_iff:
  "rowConflict g row col num = (\<exists>c<9. c \<noteq> col \<and> cell g row c = num)"
  by (auto simp: rowConflict_def list_ex_iff)

lemma colConflict_iff:
  "colConflict g row col num = (\<exists>r<9. r \<noteq> row \<and> cell g r col = num)"
  by (auto simp: colConflict_def list_ex_iff)

lemma boxConflict_iff:
  "boxConflict g row col num =
     (\<exists>r c. r div 3 = row div 3 \<and> c div 3 = col div 3 \<and> (r \<noteq> row \<or> c \<noteq> col) \<and>
            cell g r c = num)"
  unfolding boxConflict_def Let_def list_ex_iff set_upt atLeastLessThan_iff Bex_def in_box_iff
  by blast

lemma isValidInGrid_iff:
  assumes "row < 9" "col < 9"
  shows "isValidInGrid g row col num =
     (\<forall>r<9. \<forall>c<9. (r \<noteq> row \<or> c \<noteq> col) \<and> sameUnit row col r c \<longrightarrow> cell g r c \<noteq> num)"
proof -
  have "isValidInGrid g row col num =
     (\<not> (\<exists>c<9. c \<noteq> col \<and> cell g row c = num) \<and> \<not> (\<exists>r<9. r \<noteq> row \<and> cell g r col = num)
      \<and> \<not> (\<exists>r c. r div 3 = row div 3 \<and> c div 3 = col div 3 \<and> (r \<noteq> row \<or> c \<noteq> col) \<and>
                cell g r c = num))"
    by (simp add: isValidInGrid_def rowConflict_iff colConflict_iff boxConflict_iff)
  also have "\<dots> =
     (\<forall>r<9. \<forall>c<9. (r \<noteq> row \<or> c \<noteq> col) \<and> sameUnit row col r c \<longrightarrow> cell g r c \<noteq> num)"
    unfolding sameUnit_def using assms div3_lt9[of row] div3_lt9[of col] by blast
  finally show ?thesis .
qed

text \<open>
  C3: \<open>isValidMove\<close> answers \<open>false\<close> for a row or column outside \<open>[0,9)\<close> or a value outside
  \<open>1..9\<close> (the guard comes before any read of the board), and for inputs in range it answers
  \<open>true\<close> exactly when no cell other than \<open>(row, col)\<close> in the same row, the same column or the
  same 3x3 box holds the value.
\<close>

theorem isValidMove_spec:
  "isValidMove s row col num =
     (0 \<le> row \<and> row < 9 \<and> 0 \<le> col \<and> col < 9 \<and> 1 \<le> num \<and> num \<le> 9 \<and>
      (\<forall>r<9. \<forall>c<9. (r \<noteq> nat row \<or> c \<noteq> nat col) \<and>
          (r = nat row \<or> c = nat col \<or> (r div 3 = nat row div 3 \<and> c div 3 = nat col div 3))
          \<longrightarrow> cell (board s) r c \<noteq> num))"
proof (cases "row < 0 \<or> row \<ge> 9 \<or> col < 0 \<or> col \<ge> 9 \<or> num < 1 \<or> num > 9")
  case True
  then show ?thesis by (auto simp: isValidMove_def)
next
  case False
  then have rc: "nat row < 9" "nat col < 9" by auto
  from False have "isValidMove s row col num = isValidInGrid (board s) (nat row) (nat col) num"
    by (simp add: isValidMove_def isValidInGrid_def)
  also note isValidInGrid_iff[OF rc]
  finally show ?thesis using False by (simp add: sameUnit_def not_less not_le)
qed

theorem isValidMove_spec_witness:
  "isValidMove scenarioB 0 2 4 \<and> \<not> isValidMove scenarioB 0 2 5 \<and>
   \<not> isValidMove scenarioB 9 9 5 \<and> \<not> isValidMove scenarioB 0 2 10"
proof -
  have a: "isValidMove scenarioB 0 2 4"
    unfolding isValidMove_spec all_lt9 by code_simp
  have b: "\<not> isValidMove scenarioB 0 2 5"
    unfolding isValidMove_spec all_lt9 by code_simp
  have c: "\<not> isValidMove scenarioB 9 9 5" "\<not> isValidMove scenarioB 0 2 10"
    unfolding isValidMove_spec by simp_all
  from a b c show ?thesis by simp
qed

section \<open>Grids\<close>

lemma wf_gridD: "wf_grid g \<Longrightarrow> length g = 9" "wf_grid g \<Longrightarrow> r < 9 \<Longrightarrow> length (g ! r) = 9"
  by (auto simp: wf_grid_def list_all_length)

lemma wf_setCell [simp]: "wf_grid g \<Longrightarrow> wf_grid (setCell g r c v)"
proof (cases "r < length g")
  case True
  assume "wf_grid g"
  with True show ?thesis
    by (auto simp: wf_grid_def setCell_def list_all_length nth_list_update)
next
  case False
  assume "wf_grid g"
  with False show ?thesis by (simp add: setCell_def list_update_beyond not_less)
qed

lemma cell_setCell:
  "wf_grid g \<Longrightarrow> r < 9 \<Longrightarrow> c < 9 \<Longrightarrow>
   cell (setCell g r c v) r' c' = (if r' = r \<and> c' = c then v else cell g r' c')"
  by (auto simp: cell_def setCell_def wf_gridD nth_list_update)

lemma setCell_setCell: "wf_grid g \<Longrightarrow> r < 9 \<Longrightarrow> setCell (setCell g r c v) r c w = setCell g r c w"
  by (simp add: setCell_def wf_gridD)

lemma setCell_cell: "setCell g r c (cell g r c) = g"
  by (simp add: setCell_def cell_def)

lemma setCell_restore:
  "wf_grid g \<Longrightarrow> r < 9 \<Longrightarrow> setCell (setCell g r c v) r c (cell g r c) = g"
  by (simp add: setCell_setCell setCell_cell)

lemma grid_eqI:
  assumes "wf_grid g" "wf_grid h" "\<And>r c. r < 9 \<Longrightarrow> c < 9 \<Longrightarrow> cell g r c = cell h r c"
  shows "g = h"
proof (rule nth_equalityI)
  show "length g = length h" using assms by (simp add: wf_gridD)
next
  fix r assume "r < length g"
  then have r: "r < 9" using assms by (simp add: wf_gridD)
  show "g ! r = h ! r"
  proof (rule nth_equalityI)
    show "length (g ! r) = length (h ! r)" using assms r by (simp add: wf_gridD)
  next
    fix c assume "c < length (g ! r)"
    then have "c < 9" using assms r by (simp add: wf_gridD)
    with assms(3)[OF r] show "g ! r ! c = h ! r ! c" by (simp add: cell_def)
  qed
qed

lemma wf_emptyGrid [simp]: "wf_grid emptyGrid"
  by (simp add: wf_grid_def emptyGrid_def list_all_iff)

lemma cell_emptyGrid: "r < 9 \<Longrightarrow> c < 9 \<Longrightarrow> cell emptyGrid r c = 0"
  by (simp add: cell_def emptyGrid_def)

lemma set_getCandidates:
  "set (getCandidates g r c) = {v. 1 \<le> v \<and> v \<le> 9 \<and> isValidInGrid g r c v}"
  by (auto simp: getCandidates_def)

lemma length_getCandidates: "length (getCandidates g r c) \<le> 9"
proof -
  have "length (getCandidates g r c) \<le> length [1..9::int]"
    unfolding getCandidates_def by (rule length_filter_le)
  then show ?thesis by simp
qed

lemma distinct_getCandidates: "distinct (getCandidates g r c)"
  by (simp add: getCandidates_def)

section \<open>Hints for a cell and player moves\<close>

text \<open>
  C2: the order of the checks in \<open>getHintForCell\<close>.  A clue cell always holds its value, so
  the test for a filled cell answers first: on the clue cell (0,0) of \<open>clueState\<close> the result
  carries \<open>-2\<close> (already filled), not \<open>-3\<close> (fixed cell).
\<close>

theorem getHintForCell_clue_cell:
  "fixed clueState ! 0 ! 0 \<and> cell (board clueState) 0 0 = 5 \<and>
   getHintForCell clueState 0 0 = mkMove (-1) (-1) (-2) \<and>
   mvalue (getHintForCell clueState 0 0) \<noteq> -3"
  by code_simp

text \<open>
  C6: \<open>makeMove\<close> returns \<open>false\<close> exactly when the position is out of bounds, the cell is
  fixed, the value is outside \<open>[0,9]\<close> or a nonzero value conflicts with the row, column or
  box; it then leaves the game as it was.  When it returns \<open>true\<close> the only change is the
  written cell.
\<close>

theorem makeMove_failure:
  "(\<not> fst (makeMove s row col v)) =
     (row < 0 \<or> 9 \<le> row \<or> col < 0 \<or> 9 \<le> col \<or> fixed s ! nat row ! nat col \<or>
      v < 0 \<or> 9 < v \<or> (v \<noteq> 0 \<and> \<not> isValidMove s row col v))
   \<and> (\<not> fst (makeMove s row col v) \<longrightarrow> snd (makeMove s row col v) = s)
   \<and> (fst (makeMove s row col v) \<longrightarrow>
        snd (makeMove s row col v) = s\<lparr>board := setCell (board s) (nat row) (nat col) v\<rparr>)"
  by (auto simp: makeMove_def makeMoveTry_def)

theorem makeMove_failure_witness:
  "\<not> fst (makeMove scenarioB 0 2 5) \<and> snd (makeMove scenarioB 0 2 5) = scenarioB \<and>
   fst (makeMove scenarioB 0 2 4) \<and>
   snd (makeMove scenarioB 0 2 4) = scenarioB\<lparr>board := setCell (board scenarioB) 0 2 4\<rparr>"
proof -
  have a: "\<not> fst (makeMove scenarioB 0 2 5)" by code_simp
  have b: "fst (makeMove scenarioB 0 2 4)" by code_simp
  from a b makeMove_failure[of scenarioB 0 2 5] makeMove_failure[of scenarioB 0 2 4]
  show ?thesis by simp
qed

text \<open>A player move keeps the 9x9 shape of the board.\<close>

lemma makeMove_wf: "wf_grid (board s) \<Longrightarrow> wf_grid (board (snd (makeMove s row col v)))"
  by (simp add: makeMove_def makeMoveTry_def)

section \<open>The cell choice\<close>

lemma set_allPositions: "set allPositions = {(r, c). r < 9 \<and> c < 9}"
  by (auto simp: allPositions_def)

lemma findBestLoop_no_empty:
  "(\<forall>(r, c)\<in>set ps. cell g r c \<noteq> 0) \<Longrightarrow> findBestLoop g ps m best = best"
  by (induction g ps m best rule: findBestLoop.induct) auto

lemma findBestCell_complete:
  "(\<forall>r<9. \<forall>c<9. cell g r c \<noteq> 0) \<Longrightarrow> findBestCell g = None"
  unfolding findBestCell_def by (rule findBestLoop_no_empty) (auto simp: set_allPositions)

lemma findBestLoop_Some:
  "findBestLoop g ps m best = Some (r, c) \<Longrightarrow>
     best = Some (r, c) \<or> ((r, c) \<in> set ps \<and> cell g r c = 0)"
  by (induction g ps m best rule: findBestLoop.induct) (auto simp: Let_def split: if_splits)

lemma findBestLoop_None:
  "findBestLoop g ps m best = None \<Longrightarrow>
     best = None \<and> (\<forall>(r, c)\<in>set ps. cell g r c = 0 \<longrightarrow> m \<le> length (getCandidates g r c))"
proof (induction g ps m best rule: findBestLoop.induct)
  case (1 g minCandidates best)
  then show ?case by simp
next
  case (2 g r c ps minCandidates best)
  show ?case
  proof (cases "cell g r c = 0")
    case False
    with 2 show ?thesis by auto
  next
    case True
    show ?thesis
    proof (cases "length (getCandidates g r c) < minCandidates")
      case False
      with True 2 show ?thesis by (auto simp: Let_def)
    next
      case lt: True
      with True 2(4) have ne1: "length (getCandidates g r c) \<noteq> 1"
        by (auto simp: Let_def split: if_splits)
      with True lt 2(4) have "findBestLoop g ps (length (getCandidates g r c)) (Some (r, c)) = None"
        by (simp add: Let_def)
      from 2(1)[OF True refl lt ne1 this] show ?thesis by simp
    qed
  qed
qed

lemma findBestCell_Some:
  "findBestCell g = Some (r, c) \<Longrightarrow> r < 9 \<and> c < 9 \<and> cell g r c = 0"
  unfolding findBestCell_def by (auto dest: findBestLoop_Some simp: set_allPositions)

lemma findBestCell_None:
  "findBestCell g = None \<Longrightarrow> r < 9 \<Longrightarrow> c < 9 \<Longrightarrow> cell g r c \<noteq> 0"
proof
  assume n: "findBestCell g = None" and rc: "r < 9" "c < 9" and z: "cell g r c = 0"
  from n have "\<forall>(r, c)\<in>set allPositions. cell g r c = 0 \<longrightarrow> 9 + 1 \<le> length (getCandidates g r c)"
    unfolding findBestCell_def by (auto dest: findBestLoop_None)
  with rc z have "10 \<le> length (getCandidates g r c)" by (auto simp: set_allPositions)
  with length_getCandidates[of g r c] show False by simp
qed

text \<open>
  C8: on a grid with no empty cell \<open>solveBacktrack\<close> returns \<open>true\<close> and leaves every cell (and
  the random source) as it was.
\<close>

theorem solveBacktrack_complete_idem:
  "(\<forall>r<9. \<forall>c<9. cell g r c \<noteq> 0) \<Longrightarrow> solveBacktrack n g r = Some (True, g, r)"
  by (simp add: solveBacktrack.simps findBestCell_complete)

theorem solveBacktrack_complete_idem_witness:
  "solveBacktrack 81 solvedGrid [3, 1, 4] = Some (True, solvedGrid, [3, 1, 4])"
proof -
  have a: "\<forall>r<9. \<forall>c<9. cell solvedGrid r c \<noteq> 0"
    unfolding all_lt9 by code_simp
  show ?thesis by (rule solveBacktrack_complete_idem[OF a])
qed

section \<open>The shuffle\<close>

lemma shuffle_perm:
  "set (fst (shuffle xs r)) = set xs \<and> length (fst (shuffle xs r)) = length xs \<and>
   (distinct xs \<longrightarrow> distinct (fst (shuffle xs r)))"
proof (induction xs r rule: shuffle.induct)
  case (1 r)
  then show ?case by simp
next
  case (2 x xs r)
  obtain d r1 where d: "draw r = (d, r1)" by (cases "draw r")
  define k where "k = d mod length (x # xs)"
  define rest where "rest = take k (x # xs) @ drop (Suc k) (x # xs)"
  have k: "k < length (x # xs)" unfolding k_def by simp
  obtain ys r2 where ys: "shuffle rest r1 = (ys, r2)" by (cases "shuffle rest r1")
  from 2[OF refl d[symmetric] k_def] ys
  have ih: "set ys = set rest" "length ys = length rest" "distinct rest \<longrightarrow> distinct ys"
    by (simp_all add: rest_def)
  have res: "shuffle (x # xs) r = ((x # xs) ! k # ys, r2)"
    using d ys by (simp add: k_def rest_def Let_def)
  have split: "x # xs = take k (x # xs) @ (x # xs) ! k # drop (Suc k) (x # xs)"
    by (rule id_take_nth_drop[OF k])
  have s: "set (x # xs) = insert ((x # xs) ! k) (set rest)"
    by (subst split) (auto simp: rest_def)
  have l: "length (x # xs) = Suc (length rest)"
    by (subst split) (simp add: rest_def)
  have dd: "distinct (x # xs) \<longrightarrow> distinct rest \<and> (x # xs) ! k \<notin> set rest"
    by (subst split) (auto simp: rest_def)
  from ih s l dd show ?case unfolding res by auto
qed

lemma set_shuffle: "set (fst (shuffle xs r)) = set xs"
  using shuffle_perm[of xs r] by simp

lemma length_shuffle: "length (fst (shuffle xs r)) = length xs"
  using shuffle_perm[of xs r] by simp

lemma distinct_shuffle: "distinct xs \<Longrightarrow> distinct (fst (shuffle xs r))"
  using shuffle_perm[of xs r] by simp

lemma shuffle_Nil_rng: "shuffle xs [] = (xs, [])"
proof (induction "length xs" arbitrary: xs)
  case 0
  then show ?case by simp
next
  case (Suc n)
  then obtain y ys where xs: "xs = y # ys" by (cases xs) auto
  with Suc have "shuffle ys [] = (ys, [])" by simp
  with xs show ?case by simp
qed

section \<open>Legal grids\<close>

lemma distinct_allPositions: "distinct allPositions"
  by code_simp

lemma length_allPositions: "length allPositions = 81"
  by code_simp

lemma completeGrid_iff: "completeGrid g = (\<forall>r<9. \<forall>c<9. cell g r c \<noteq> 0)"
  by (auto simp: completeGrid_def list_all_iff set_allPositions)

lemma legalGrid_iff:
  "legalGrid g = (\<forall>r<9. \<forall>c<9. cell g r c = 0 \<or>
       (1 \<le> cell g r c \<and> cell g r c \<le> 9 \<and> isValidInGrid g r c (cell g r c)))"
  by (auto simp: legalGrid_def list_all_iff set_allPositions)

lemma extendsGrid_iff:
  "extendsGrid g h = (\<forall>r<9. \<forall>c<9. cell g r c \<noteq> 0 \<longrightarrow> cell h r c = cell g r c)"
  by (auto simp: extendsGrid_def list_all_iff set_allPositions)

lemma sameUnit_sym: "sameUnit r c r' c' = sameUnit r' c' r c"
  by (auto simp: sameUnit_def)

lemma legalGrid_setCell:
  assumes wf: "wf_grid g" and lg: "legalGrid g" and rc: "r < 9" "c < 9"
    and v: "1 \<le> v" "v \<le> 9" and ok: "isValidInGrid g r c v"
  shows "legalGrid (setCell g r c v)"
  unfolding legalGrid_iff
proof (intro allI impI)
  fix r' c' :: nat assume b: "r' < 9" "c' < 9"
  let ?g = "setCell g r c v"
  from ok have okv: "\<And>r'' c''. r'' < 9 \<Longrightarrow> c'' < 9 \<Longrightarrow> r'' \<noteq> r \<or> c'' \<noteq> c \<Longrightarrow>
      sameUnit r c r'' c'' \<Longrightarrow> cell g r'' c'' \<noteq> v"
    by (simp add: isValidInGrid_iff[OF rc])
  show "cell ?g r' c' = 0 \<or>
       (1 \<le> cell ?g r' c' \<and> cell ?g r' c' \<le> 9 \<and> isValidInGrid ?g r' c' (cell ?g r' c'))"
  proof (cases "r' = r \<and> c' = c")
    case True
    then have "cell ?g r' c' = v" by (simp add: cell_setCell[OF wf rc])
    moreover have "isValidInGrid ?g r c v"
      unfolding isValidInGrid_iff[OF rc] using okv by (auto simp: cell_setCell[OF wf rc])
    ultimately show ?thesis using v True by simp
  next
    case False
    then have same: "cell ?g r' c' = cell g r' c'" by (auto simp: cell_setCell[OF wf rc])
    show ?thesis
    proof (cases "cell g r' c' = 0")
      case True
      with same show ?thesis by simp
    next
      case nz: False
      with lg b have old: "1 \<le> cell g r' c'" "cell g r' c' \<le> 9"
        "isValidInGrid g r' c' (cell g r' c')"
        by (auto simp: legalGrid_iff)
      have "isValidInGrid ?g r' c' (cell g r' c')"
        unfolding isValidInGrid_iff[OF b]
      proof (intro allI impI)
        fix r'' c'' :: nat assume h: "r'' < 9" "c'' < 9"
          "(r'' \<noteq> r' \<or> c'' \<noteq> c') \<and> sameUnit r' c' r'' c''"
        show "cell ?g r'' c'' \<noteq> cell g r' c'"
        proof (cases "r'' = r \<and> c'' = c")
          case True
          with h have "sameUnit r c r' c'" using sameUnit_sym by blast
          from okv[OF b _ this] False have "cell g r' c' \<noteq> v" by blast
          with True show ?thesis by (simp add: cell_setCell[OF wf rc])
        next
          case False
          then have "cell ?g r'' c'' = cell g r'' c''" by (auto simp: cell_setCell[OF wf rc])
          with old(3) h show ?thesis by (simp add: isValidInGrid_iff[OF b])
        qed
      qed
      with same old show ?thesis by simp
    qed
  qed
qed

lemma numEmpty_setCell:
  assumes wf: "wf_grid g" and rc: "r < 9" "c < 9" and z: "cell g r c = 0" and v: "v \<noteq> 0"
  shows "numEmpty (setCell g r c v) < numEmpty g"
proof -
  let ?A = "{p. (case p of (a, b) \<Rightarrow> cell (setCell g r c v) a b = 0)} \<inter> set allPositions"
  let ?B = "{p. (case p of (a, b) \<Rightarrow> cell g a b = 0)} \<inter> set allPositions"
  have "?A \<subseteq> ?B" using v by (auto simp: cell_setCell[OF wf rc] split: if_splits)
  moreover have "(r, c) \<in> ?B" using rc z by (simp add: set_allPositions)
  moreover have "(r, c) \<notin> ?A" using v by (simp add: cell_setCell[OF wf rc])
  ultimately have "?A \<subset> ?B" by blast
  then have "card ?A < card ?B" by (intro psubset_card_mono) auto
  then show ?thesis
    by (simp add: numEmpty_def distinct_length_filter[OF distinct_allPositions])
qed

lemma numEmpty_le: "numEmpty g \<le> 81"
  unfolding numEmpty_def using length_filter_le[of _ allPositions] by (simp add: length_allPositions)

section \<open>The backtracking solver\<close>

declare solveBacktrack.simps [simp del]
declare countSolutions.simps [simp del]

lemma solveLoop_frame:
  assumes IH: "\<And>g r ok g' r'. wf_grid g \<Longrightarrow> solveBacktrack m g r = Some (ok, g', r') \<Longrightarrow>
      wf_grid g' \<and> (\<not> ok \<longrightarrow> g' = g) \<and>
      (\<forall>a<9. \<forall>b<9. cell g a b \<noteq> 0 \<longrightarrow> cell g' a b = cell g a b)"
    and wf: "wf_grid g" and rc: "row < 9" "col < 9" and z: "cell g row col = 0"
  shows "solveLoop m row col nums g r = Some (ok, g', r') \<Longrightarrow>
      wf_grid g' \<and> (\<not> ok \<longrightarrow> g' = g) \<and>
      (\<forall>a<9. \<forall>b<9. cell g a b \<noteq> 0 \<longrightarrow> cell g' a b = cell g a b)"
proof (induction nums arbitrary: r)
  case Nil
  with wf show ?case by simp
next
  case (Cons num nums)
  show ?case
  proof (cases "isValidInGrid g row col num")
    case False
    with Cons.prems have "solveLoop m row col nums g r = Some (ok, g', r')" by simp
    then show ?thesis by (rule Cons.IH)
  next
    case True
    let ?h = "setCell g row col num"
    have wfh: "wf_grid ?h" using wf by simp
    from True Cons.prems obtain ok1 g1 r1 where
      rec: "solveBacktrack m ?h r = Some (ok1, g1, r1)"
      by (cases "solveBacktrack m ?h r") auto
    note post = IH[OF wfh rec]
    show ?thesis
    proof (cases ok1)
      case True
      with rec \<open>isValidInGrid g row col num\<close> Cons.prems
      have res: "ok = True" "g' = g1" by simp_all
      have "cell g1 a b = cell g a b" if "a < 9" "b < 9" "cell g a b \<noteq> 0" for a b
      proof -
        from that z have ne: "\<not> (a = row \<and> b = col)" by auto
        then have "cell ?h a b = cell g a b" by (auto simp: cell_setCell[OF wf rc])
        with post that show ?thesis by simp
      qed
      with post res show ?thesis by simp
    next
      case False
      with post have g1: "g1 = ?h" by simp
      have "setCell g1 row col 0 = g"
        unfolding g1 using setCell_restore[OF wf rc(1), of col num] z by simp
      with False rec \<open>isValidInGrid g row col num\<close> Cons.prems
      have "solveLoop m row col nums g r1 = Some (ok, g', r')" by simp
      then show ?thesis by (rule Cons.IH)
    qed
  qed
qed

lemma solveBacktrack_frame:
  "wf_grid g \<Longrightarrow> solveBacktrack n g r = Some (ok, g', r') \<Longrightarrow>
      wf_grid g' \<and> (\<not> ok \<longrightarrow> g' = g) \<and>
      (\<forall>a<9. \<forall>b<9. cell g a b \<noteq> 0 \<longrightarrow> cell g' a b = cell g a b)"
proof (induction n arbitrary: g r ok g' r')
  case 0
  then show ?case
    by (auto simp: solveBacktrack.simps split: option.splits)
next
  case (Suc m)
  show ?case
  proof (cases "findBestCell g")
    case None
    with Suc.prems show ?thesis by (simp add: solveBacktrack.simps)
  next
    case (Some p)
    obtain row col where p: "p = (row, col)" by (cases p)
    from Some p have rc: "row < 9" "col < 9" and z: "cell g row col = 0"
      by (auto dest: findBestCell_Some)
    obtain cs r1 where sh: "shuffle (getCandidates g row col) r = (cs, r1)"
      by (cases "shuffle (getCandidates g row col) r")
    from Suc.prems(2) Some p sh have "solveLoop m row col cs g r1 = Some (ok, g', r')"
      by (simp add: solveBacktrack.simps)
    moreover have "\<And>g r ok g' r'. wf_grid g \<Longrightarrow> solveBacktrack m g r = Some (ok, g', r') \<Longrightarrow>
      wf_grid g' \<and> (\<not> ok \<longrightarrow> g' = g) \<and>
      (\<forall>a<9. \<forall>b<9. cell g a b \<noteq> 0 \<longrightarrow> cell g' a b = cell g a b)"
      by (rule Suc.IH)
    ultimately show ?thesis
      using Suc.prems(1) rc z by (rule solveLoop_frame[rotated -1])
  qed
qed

lemma numEmpty_pos: "r < 9 \<Longrightarrow> c < 9 \<Longrightarrow> cell g r c = 0 \<Longrightarrow> 0 < numEmpty g"
  unfolding numEmpty_def length_greater_0_conv
  by (auto simp: filter_empty_conv set_allPositions)

lemma candidates_nonzero: "v \<in> set (getCandidates g r c) \<Longrightarrow> 1 \<le> v \<and> v \<le> 9 \<and> isValidInGrid g r c v"
  by (simp add: set_getCandidates)

lemma solveLoop_total:
  assumes IH: "\<And>g r. wf_grid g \<Longrightarrow> numEmpty g \<le> m \<Longrightarrow> solveBacktrack m g r \<noteq> None"
    and wf: "wf_grid g" and rc: "row < 9" "col < 9" and z: "cell g row col = 0"
    and ne: "numEmpty g \<le> Suc m"
  shows "0 \<notin> set nums \<Longrightarrow> solveLoop m row col nums g r \<noteq> None"
proof (induction nums arbitrary: r)
  case Nil
  show ?case by simp
next
  case (Cons num nums)
  then have nz: "num \<noteq> 0" and rest: "0 \<notin> set nums" by auto
  show ?case
  proof (cases "isValidInGrid g row col num")
    case False
    with Cons.IH[OF rest] show ?thesis by simp
  next
    case True
    let ?h = "setCell g row col num"
    have wfh: "wf_grid ?h" using wf by simp
    have "numEmpty ?h \<le> m" using numEmpty_setCell[OF wf rc z nz] ne by simp
    from IH[OF wfh this, of r] obtain ok1 g1 r1 where
      rec: "solveBacktrack m ?h r = Some (ok1, g1, r1)" by (cases "solveBacktrack m ?h r") auto
    show ?thesis
    proof (cases ok1)
      case True
      with rec \<open>isValidInGrid g row col num\<close> show ?thesis by simp
    next
      case False
      with solveBacktrack_frame[OF wfh rec] have g1: "g1 = ?h" by simp
      have "setCell g1 row col 0 = g"
        unfolding g1 using setCell_restore[OF wf rc(1), of col num] z by simp
      with False rec \<open>isValidInGrid g row col num\<close> Cons.IH[OF rest, of r1]
      show ?thesis by simp
    qed
  qed
qed

lemma solveBacktrack_total:
  "wf_grid g \<Longrightarrow> numEmpty g \<le> n \<Longrightarrow> solveBacktrack n g r \<noteq> None"
proof (induction n arbitrary: g r)
  case 0
  then have "findBestCell g = None"
    using numEmpty_pos[of _ _ g] by (cases "findBestCell g") (auto dest!: findBestCell_Some)
  then show ?case by (simp add: solveBacktrack.simps)
next
  case (Suc m)
  show ?case
  proof (cases "findBestCell g")
    case None
    then show ?thesis by (simp add: solveBacktrack.simps)
  next
    case (Some p)
    obtain row col where p: "p = (row, col)" by (cases p)
    from Some p have rc: "row < 9" "col < 9" and z: "cell g row col = 0"
      by (auto dest: findBestCell_Some)
    obtain cs r1 where sh: "shuffle (getCandidates g row col) r = (cs, r1)"
      by (cases "shuffle (getCandidates g row col) r")
    have "set cs = set (getCandidates g row col)"
      using set_shuffle[of "getCandidates g row col" r] sh by simp
    then have nz: "0 \<notin> set cs" by (auto simp: set_getCandidates)
    have "\<And>g r. wf_grid g \<Longrightarrow> numEmpty g \<le> m \<Longrightarrow> solveBacktrack m g r \<noteq> None"
      by (rule Suc.IH)
    then have "solveLoop m row col cs g r1 \<noteq> None"
      using Suc.prems(1) rc z Suc.prems(2) nz by (rule solveLoop_total)
    with Some p sh show ?thesis by (simp add: solveBacktrack.simps)
  qed
qed

lemma solveBacktrack_81: "wf_grid g \<Longrightarrow> solveBacktrack 81 g r \<noteq> None"
  by (rule solveBacktrack_total[OF _ numEmpty_le])

lemma solveLoop_success:
  assumes IH: "\<And>g r g' r'. wf_grid g \<Longrightarrow> solveBacktrack m g r = Some (True, g', r') \<Longrightarrow>
      completeGrid g' \<and> (legalGrid g \<longrightarrow> legalGrid g')"
    and wf: "wf_grid g" and rc: "row < 9" "col < 9" and z: "cell g row col = 0"
  shows "\<forall>v\<in>set nums. 1 \<le> v \<and> v \<le> 9 \<Longrightarrow> solveLoop m row col nums g r = Some (True, g', r') \<Longrightarrow>
      completeGrid g' \<and> (legalGrid g \<longrightarrow> legalGrid g')"
proof (induction nums arbitrary: r)
  case Nil
  then show ?case by simp
next
  case (Cons num nums)
  then have v: "1 \<le> num" "num \<le> 9" and rest: "\<forall>v\<in>set nums. 1 \<le> v \<and> v \<le> 9" by auto
  show ?case
  proof (cases "isValidInGrid g row col num")
    case False
    with Cons.prems(2) have "solveLoop m row col nums g r = Some (True, g', r')" by simp
    with rest show ?thesis by (rule Cons.IH)
  next
    case True
    let ?h = "setCell g row col num"
    have wfh: "wf_grid ?h" using wf by simp
    from True Cons.prems(2) obtain ok1 g1 r1 where
      rec: "solveBacktrack m ?h r = Some (ok1, g1, r1)"
      by (cases "solveBacktrack m ?h r") auto
    show ?thesis
    proof (cases ok1)
      case ok: True
      with rec True Cons.prems(2) have "g' = g1" by simp
      with IH[OF wfh] rec ok have "completeGrid g'" "legalGrid ?h \<longrightarrow> legalGrid g'" by auto
      with legalGrid_setCell[OF wf _ rc v True] show ?thesis by blast
    next
      case False
      with solveBacktrack_frame[OF wfh rec] have g1: "g1 = ?h" by simp
      have "setCell g1 row col 0 = g"
        unfolding g1 using setCell_restore[OF wf rc(1), of col num] z by simp
      with False rec True Cons.prems(2)
      have "solveLoop m row col nums g r1 = Some (True, g', r')" by simp
      with rest show ?thesis by (rule Cons.IH)
    qed
  qed
qed

lemma solveBacktrack_success:
  "wf_grid g \<Longrightarrow> solveBacktrack n g r = Some (True, g', r') \<Longrightarrow>
      completeGrid g' \<and> (legalGrid g \<longrightarrow> legalGrid g')"
proof (induction n arbitrary: g r g' r')
  case 0
  then show ?case
    by (auto simp: solveBacktrack.simps completeGrid_iff dest: findBestCell_None
        split: option.splits)
next
  case (Suc m)
  show ?case
  proof (cases "findBestCell g")
    case None
    with Suc.prems show ?thesis
      by (auto simp: solveBacktrack.simps completeGrid_iff dest: findBestCell_None)
  next
    case (Some p)
    obtain row col where p: "p = (row, col)" by (cases p)
    from Some p have rc: "row < 9" "col < 9" and z: "cell g row col = 0"
      by (auto dest: findBestCell_Some)
    obtain cs r1 where sh: "shuffle (getCandidates g row col) r = (cs, r1)"
      by (cases "shuffle (getCandidates g row col) r")
    have "set cs = set (getCandidates g row col)"
      using set_shuffle[of "getCandidates g row col" r] sh by simp
    then have vs: "\<forall>v\<in>set cs. 1 \<le> v \<and> v \<le> 9" by (auto simp: set_getCandidates)
    from Suc.prems(2) Some p sh have lp: "solveLoop m row col cs g r1 = Some (True, g', r')"
      by (simp add: solveBacktrack.simps)
    have "\<And>g r g' r'. wf_grid g \<Longrightarrow> solveBacktrack m g r = Some (True, g', r') \<Longrightarrow>
      completeGrid g' \<and> (legalGrid g \<longrightarrow> legalGrid g')"
      by (rule Suc.IH)
    then show ?thesis
      using Suc.prems(1) rc z vs lp by (rule solveLoop_success)
  qed
qed

lemma completion_cell_range:
  assumes "completion g h" "r < 9" "c < 9"
  shows "1 \<le> cell h r c \<and> cell h r c \<le> 9 \<and> cell h r c \<noteq> 0"
  using assms by (auto simp: completion_def completeGrid_iff legalGrid_iff)

lemma completion_valid:
  assumes cp: "completion g h" and rc: "r < 9" "c < 9"
  shows "isValidInGrid g r c (cell h r c)"
  unfolding isValidInGrid_iff[OF rc]
proof (intro allI impI)
  fix a b :: nat assume ab: "a < 9" "b < 9" "(a \<noteq> r \<or> b \<noteq> c) \<and> sameUnit r c a b"
  show "cell g a b \<noteq> cell h r c"
  proof
    assume eq: "cell g a b = cell h r c"
    with completion_cell_range[OF cp rc] have "cell g a b \<noteq> 0" by simp
    with cp ab have "cell h a b = cell g a b" by (simp add: completion_def extendsGrid_iff)
    with eq have "cell h a b = cell h r c" by simp
    moreover from cp rc completion_cell_range[OF cp rc]
    have "isValidInGrid h r c (cell h r c)" by (auto simp: completion_def legalGrid_iff)
    ultimately show False using ab by (simp add: isValidInGrid_iff[OF rc])
  qed
qed

lemma completion_candidate:
  "completion g h \<Longrightarrow> r < 9 \<Longrightarrow> c < 9 \<Longrightarrow> cell h r c \<in> set (getCandidates g r c)"
  by (simp add: set_getCandidates completion_valid completion_cell_range)

lemma completion_setCell:
  assumes wf: "wf_grid g" and cp: "completion g h" and rc: "r < 9" "c < 9"
  shows "completion (setCell g r c (cell h r c)) h"
  using cp by (auto simp: completion_def extendsGrid_iff cell_setCell[OF wf rc])

lemma solveLoop_finds:
  assumes IH: "\<And>g r h. wf_grid g \<Longrightarrow> numEmpty g \<le> m \<Longrightarrow> completion g h \<Longrightarrow>
      \<exists>g' r'. solveBacktrack m g r = Some (True, g', r')"
    and wf: "wf_grid g" and rc: "row < 9" "col < 9" and z: "cell g row col = 0"
    and ne: "numEmpty g \<le> Suc m" and cp: "completion g h"
  shows "0 \<notin> set nums \<Longrightarrow> cell h row col \<in> set nums \<Longrightarrow>
      \<exists>g' r'. solveLoop m row col nums g r = Some (True, g', r')"
proof (induction nums arbitrary: r)
  case Nil
  then show ?case by simp
next
  case (Cons num nums)
  then have nz: "num \<noteq> 0" and rest: "0 \<notin> set nums" by auto
  show ?case
  proof (cases "isValidInGrid g row col num")
    case False
    with completion_valid[OF cp rc] have "num \<noteq> cell h row col" by auto
    with Cons.prems(2) have "cell h row col \<in> set nums" by auto
    from Cons.IH[OF rest this, of r] False show ?thesis by simp
  next
    case True
    let ?h = "setCell g row col num"
    have wfh: "wf_grid ?h" using wf by simp
    have neh: "numEmpty ?h \<le> m" using numEmpty_setCell[OF wf rc z nz] ne by simp
    from solveBacktrack_total[OF wfh neh, of r] obtain ok1 g1 r1 where
      rec: "solveBacktrack m ?h r = Some (ok1, g1, r1)" by (cases "solveBacktrack m ?h r") auto
    show ?thesis
    proof (cases ok1)
      case True
      with rec \<open>isValidInGrid g row col num\<close> show ?thesis by simp
    next
      case False
      have "num \<noteq> cell h row col"
      proof
        assume "num = cell h row col"
        with completion_setCell[OF wf cp rc] have "completion ?h h" by simp
        from IH[OF wfh neh this, of r] rec False show False by simp
      qed
      with Cons.prems(2) have inr: "cell h row col \<in> set nums" by auto
      from False solveBacktrack_frame[OF wfh rec] have g1: "g1 = ?h" by simp
      have "setCell g1 row col 0 = g"
        unfolding g1 using setCell_restore[OF wf rc(1), of col num] z by simp
      with False rec True Cons.IH[OF rest inr, of r1] show ?thesis by simp
    qed
  qed
qed

lemma solveBacktrack_finds:
  "wf_grid g \<Longrightarrow> numEmpty g \<le> n \<Longrightarrow> completion g h \<Longrightarrow>
      \<exists>g' r'. solveBacktrack n g r = Some (True, g', r')"
proof (induction n arbitrary: g r h)
  case 0
  then have "findBestCell g = None"
    using numEmpty_pos[of _ _ g] by (cases "findBestCell g") (auto dest!: findBestCell_Some)
  then show ?case by (simp add: solveBacktrack.simps)
next
  case (Suc m)
  show ?case
  proof (cases "findBestCell g")
    case None
    then show ?thesis by (simp add: solveBacktrack.simps)
  next
    case (Some p)
    obtain row col where p: "p = (row, col)" by (cases p)
    from Some p have rc: "row < 9" "col < 9" and z: "cell g row col = 0"
      by (auto dest: findBestCell_Some)
    obtain cs r1 where sh: "shuffle (getCandidates g row col) r = (cs, r1)"
      by (cases "shuffle (getCandidates g row col) r")
    have cs: "set cs = set (getCandidates g row col)"
      using set_shuffle[of "getCandidates g row col" r] sh by simp
    then have nz: "0 \<notin> set cs" by (auto simp: set_getCandidates)
    have inr: "cell h row col \<in> set cs"
      unfolding cs by (rule completion_candidate[OF Suc.prems(3) rc])
    have "\<And>g r h. wf_grid g \<Longrightarrow> numEmpty g \<le> m \<Longrightarrow> completion g h \<Longrightarrow>
      \<exists>g' r'. solveBacktrack m g r = Some (True, g', r')"
      by (rule Suc.IH)
    then have "\<exists>g' r'. solveLoop m row col cs g r1 = Some (True, g', r')"
      using Suc.prems(1) rc z Suc.prems(2,3) nz inr by (rule solveLoop_finds)
    with Some p sh show ?thesis by (simp add: solveBacktrack.simps)
  qed
qed

section \<open>Counting completions\<close>

lemma finite_grids: "finite {h. wf_grid h \<and> (\<forall>r<9. \<forall>c<9. 1 \<le> cell h r c \<and> cell h r c \<le> 9)}"
proof -
  let ?rows = "{row :: int list. set row \<subseteq> {1..9} \<and> length row = 9}"
  have fr: "finite ?rows" by (rule finite_lists_length_eq) simp
  have "finite {h. set h \<subseteq> ?rows \<and> length h = 9}" by (rule finite_lists_length_eq[OF fr])
  moreover have "{h. wf_grid h \<and> (\<forall>r<9. \<forall>c<9. 1 \<le> cell h r c \<and> cell h r c \<le> 9)}
      \<subseteq> {h. set h \<subseteq> ?rows \<and> length h = 9}"
  proof (clarify, intro conjI)
    fix h assume wf: "wf_grid h" and rg: "\<forall>r<9. \<forall>c<9. 1 \<le> cell h r c \<and> cell h r c \<le> 9"
    show "length h = 9" using wf by (simp add: wf_gridD)
    show "set h \<subseteq> ?rows"
    proof
      fix row assume "row \<in> set h"
      then obtain r where r: "r < length h" "row = h ! r" by (auto simp: in_set_conv_nth)
      with wf have r9: "r < 9" and len: "length row = 9" by (simp_all add: wf_gridD)
      have "set row \<subseteq> {1..9}"
      proof
        fix v assume "v \<in> set row"
        then obtain c where c: "c < length row" "v = row ! c" by (auto simp: in_set_conv_nth)
        with len rg r9 r have "1 \<le> cell h r c \<and> cell h r c \<le> 9" by simp
        with c r show "v \<in> {1..9}" by (simp add: cell_def)
      qed
      with len show "row \<in> ?rows" by simp
    qed
  qed
  ultimately show ?thesis by (rule finite_subset[rotated])
qed

lemma finite_completions [simp]: "finite (completions g)"
proof (rule finite_subset[OF _ finite_grids])
  show "completions g \<subseteq> {h. wf_grid h \<and> (\<forall>r<9. \<forall>c<9. 1 \<le> cell h r c \<and> cell h r c \<le> 9)}"
    using completion_cell_range by (auto simp: completions_def completion_def)
qed

lemma extendsGrid_setCell:
  assumes wf: "wf_grid g" and rc: "r < 9" "c < 9" and z: "cell g r c = 0" and v: "v \<noteq> 0"
  shows "extendsGrid (setCell g r c v) h = (extendsGrid g h \<and> cell h r c = v)"
proof
  assume e: "extendsGrid (setCell g r c v) h"
  have "cell h a b = cell g a b" if "a < 9" "b < 9" "cell g a b \<noteq> 0" for a b
  proof -
    from that z have "\<not> (a = r \<and> b = c)" by auto
    then have "cell (setCell g r c v) a b = cell g a b" by (auto simp: cell_setCell[OF wf rc])
    with e that show ?thesis by (simp add: extendsGrid_iff)
  qed
  moreover have "cell h r c = v"
    using e rc v by (simp add: extendsGrid_iff cell_setCell[OF wf rc])
  ultimately show "extendsGrid g h \<and> cell h r c = v" by (simp add: extendsGrid_iff)
next
  assume e: "extendsGrid g h \<and> cell h r c = v"
  show "extendsGrid (setCell g r c v) h"
    unfolding extendsGrid_iff
  proof (intro allI impI)
    fix a b :: nat assume "a < 9" "b < 9" "cell (setCell g r c v) a b \<noteq> 0"
    with e show "cell h a b = cell (setCell g r c v) a b"
      by (cases "a = r \<and> b = c") (auto simp: cell_setCell[OF wf rc] extendsGrid_iff)
  qed
qed

lemma completions_setCell:
  assumes wf: "wf_grid g" and rc: "r < 9" "c < 9" and z: "cell g r c = 0" and v: "v \<noteq> 0"
  shows "completions (setCell g r c v) = {h \<in> completions g. cell h r c = v}"
  unfolding completions_def completion_def extendsGrid_setCell[OF assms] by blast

lemma completions_complete:
  assumes wf: "wf_grid g" and lg: "legalGrid g" and cg: "completeGrid g"
  shows "completions g = {g}"
proof -
  have "h = g" if "completion g h" for h
  proof (rule grid_eqI)
    show "wf_grid h" using that by (simp add: completion_def)
    show "wf_grid g" by (rule wf)
    fix r c :: nat assume "r < 9" "c < 9"
    with that cg show "cell h r c = cell g r c"
      by (simp add: completion_def extendsGrid_iff completeGrid_iff)
  qed
  moreover have "completion g g" using wf lg cg by (simp add: completion_def extendsGrid_iff)
  ultimately show ?thesis by (auto simp: completions_def)
qed

lemma completions_partition:
  assumes wf: "wf_grid g" and rc: "r < 9" "c < 9" and z: "cell g r c = 0"
  shows "card (completions g) =
      sum_list (map (\<lambda>v. card (completions (setCell g r c v))) (getCandidates g r c))"
proof -
  let ?cs = "getCandidates g r c"
  let ?part = "\<lambda>v. {h \<in> completions g. cell h r c = v}"
  have nz: "v \<noteq> 0" if "v \<in> set ?cs" for v using that by (auto simp: set_getCandidates)
  have "completions g = (\<Union>v\<in>set ?cs. ?part v)"
    using completion_candidate[OF _ rc, of g] by (auto simp: completions_def)
  then have "card (completions g) = card (\<Union>v\<in>set ?cs. ?part v)" by simp
  also have "\<dots> = (\<Sum>v\<in>set ?cs. card (?part v))"
  proof (rule card_UN_disjoint)
    show "finite (set ?cs)" by simp
    show "\<forall>v\<in>set ?cs. finite (?part v)" by simp
    show "\<forall>v\<in>set ?cs. \<forall>w\<in>set ?cs. v \<noteq> w \<longrightarrow> ?part v \<inter> ?part w = {}" by blast
  qed
  also have "\<dots> = (\<Sum>v\<in>set ?cs. card (completions (setCell g r c v)))"
    by (rule sum.cong) (simp_all add: completions_setCell[OF wf rc z nz])
  also have "\<dots> = sum_list (map (\<lambda>v. card (completions (setCell g r c v))) ?cs)"
    by (rule sum_list_distinct_conv_sum_set[symmetric]) (rule distinct_getCandidates)
  finally show ?thesis .
qed

lemma countLoop_spec:
  assumes IH: "\<And>g count. wf_grid g \<Longrightarrow> legalGrid g \<Longrightarrow> numEmpty g \<le> m \<Longrightarrow>
      countSolutions m g count limit =
        Some (g, if limit \<le> count then count
                 else min limit (count + int (card (completions g))))"
    and wf: "wf_grid g" and lg: "legalGrid g" and rc: "row < 9" "col < 9"
    and z: "cell g row col = 0" and ne: "numEmpty g \<le> Suc m"
  shows "set nums \<subseteq> set (getCandidates g row col) \<Longrightarrow>
      countLoop m row col nums g count limit =
        Some (g, if limit \<le> count then count
                 else min limit (count +
                        (\<Sum>v\<leftarrow>nums. int (card (completions (setCell g row col v))))))"
proof (induction nums arbitrary: count)
  case Nil
  show ?case by simp
next
  case (Cons num nums)
  then have cand: "num \<in> set (getCandidates g row col)"
    and rest: "set nums \<subseteq> set (getCandidates g row col)" by auto
  from cand have v: "1 \<le> num" "num \<le> 9" "isValidInGrid g row col num" "num \<noteq> 0"
    by (auto simp: set_getCandidates)
  show ?case
  proof (cases "limit \<le> count")
    case True
    then show ?thesis by simp
  next
    case False
    let ?h = "setCell g row col num"
    let ?N = "int (card (completions ?h))"
    let ?R = "\<Sum>v\<leftarrow>nums. int (card (completions (setCell g row col v)))"
    have wfh: "wf_grid ?h" using wf by simp
    have lgh: "legalGrid ?h" by (rule legalGrid_setCell[OF wf lg rc v(1,2,3)])
    have neh: "numEmpty ?h \<le> m" using numEmpty_setCell[OF wf rc z v(4)] ne by simp
    have rec: "countSolutions m ?h count limit = Some (?h, min limit (count + ?N))"
      using IH[OF wfh lgh neh, of count] False by simp
    have undo: "setCell ?h row col 0 = g"
      using setCell_restore[OF wf rc(1), of col num] z by simp
    have R0: "0 \<le> ?R" by (rule sum_list_nonneg) auto
    have "countLoop m row col (num # nums) g count limit =
        countLoop m row col nums g (min limit (count + ?N)) limit"
      using False rec undo by simp
    also have "\<dots> = Some (g, if limit \<le> min limit (count + ?N) then min limit (count + ?N)
                 else min limit (min limit (count + ?N) + ?R))"
      by (rule Cons.IH[OF rest])
    also have "(if limit \<le> min limit (count + ?N) then min limit (count + ?N)
                 else min limit (min limit (count + ?N) + ?R)) = min limit (count + (?N + ?R))"
      using R0 by (auto simp: min_def)
    finally show ?thesis using False by simp
  qed
qed

lemma countSolutions_spec:
  "wf_grid g \<Longrightarrow> legalGrid g \<Longrightarrow> numEmpty g \<le> n \<Longrightarrow>
     countSolutions n g count limit =
       Some (g, if limit \<le> count then count
                else min limit (count + int (card (completions g))))"
proof (induction n arbitrary: g count)
  case 0
  then have fb: "findBestCell g = None"
    using numEmpty_pos[of _ _ g] by (cases "findBestCell g") (auto dest!: findBestCell_Some)
  then have "completeGrid g" by (auto simp: completeGrid_iff dest: findBestCell_None)
  with 0 have "completions g = {g}" by (simp add: completions_complete)
  with fb show ?case by (simp add: countSolutions.simps)
next
  case (Suc m)
  show ?case
  proof (cases "limit \<le> count")
    case True
    then show ?thesis by (simp add: countSolutions.simps)
  next
    case lt: False
    show ?thesis
    proof (cases "findBestCell g")
      case None
      then have "completeGrid g" by (auto simp: completeGrid_iff dest: findBestCell_None)
      with Suc.prems have "completions g = {g}" by (simp add: completions_complete)
      with None lt show ?thesis by (simp add: countSolutions.simps)
    next
      case (Some p)
      obtain row col where p: "p = (row, col)" by (cases p)
      from Some p have rc: "row < 9" "col < 9" and z: "cell g row col = 0"
        by (auto dest: findBestCell_Some)
      have IH: "\<And>g count. wf_grid g \<Longrightarrow> legalGrid g \<Longrightarrow> numEmpty g \<le> m \<Longrightarrow>
        countSolutions m g count limit =
          Some (g, if limit \<le> count then count
                   else min limit (count + int (card (completions g))))"
        by (rule Suc.IH)
      have "countLoop m row col (getCandidates g row col) g count limit =
        Some (g, if limit \<le> count then count
                 else min limit (count +
                   (\<Sum>v\<leftarrow>getCandidates g row col. int (card (completions (setCell g row col v))))))"
        using IH Suc.prems(1,2) rc z Suc.prems(3) subset_refl by (rule countLoop_spec)
      moreover have "(\<Sum>v\<leftarrow>getCandidates g row col. int (card (completions (setCell g row col v))))
          = int (card (completions g))"
        unfolding completions_partition[OF Suc.prems(1) rc z]
        by (simp add: comp_def flip: sum_list_of_nat) 
      ultimately show ?thesis using Some p lt by (simp add: countSolutions.simps)
    qed
  qed
qed

lemma countLoop_total:
  assumes IH: "\<And>g count. wf_grid g \<Longrightarrow> numEmpty g \<le> m \<Longrightarrow>
      \<exists>c. countSolutions m g count limit = Some (g, c) \<and> count \<le> c \<and> (count \<le> limit \<longrightarrow> c \<le> limit)"
    and wf: "wf_grid g" and rc: "row < 9" "col < 9"
    and z: "cell g row col = 0" and ne: "numEmpty g \<le> Suc m"
  shows "0 \<notin> set nums \<Longrightarrow>
      \<exists>c. countLoop m row col nums g count limit = Some (g, c) \<and> count \<le> c \<and>
          (count \<le> limit \<longrightarrow> c \<le> limit)"
proof (induction nums arbitrary: count)
  case Nil
  show ?case by simp
next
  case (Cons num nums)
  then have nz: "num \<noteq> 0" and rest: "0 \<notin> set nums" by auto
  show ?case
  proof (cases "limit \<le> count")
    case True
    then show ?thesis by simp
  next
    case False
    let ?h = "setCell g row col num"
    have wfh: "wf_grid ?h" using wf by simp
    have neh: "numEmpty ?h \<le> m" using numEmpty_setCell[OF wf rc z nz] ne by simp
    from IH[OF wfh neh, of count] obtain c1 where
      rec: "countSolutions m ?h count limit = Some (?h, c1)" and c1: "count \<le> c1" "c1 \<le> limit"
      using False by auto
    have undo: "setCell ?h row col 0 = g"
      using setCell_restore[OF wf rc(1), of col num] z by simp
    from Cons.IH[OF rest, of c1] obtain c where
      "countLoop m row col nums g c1 limit = Some (g, c)" "c1 \<le> c" "c1 \<le> limit \<longrightarrow> c \<le> limit"
      by auto
    with False rec undo c1 show ?thesis by simp
  qed
qed

lemma countSolutions_total:
  "wf_grid g \<Longrightarrow> numEmpty g \<le> n \<Longrightarrow>
     \<exists>c. countSolutions n g count limit = Some (g, c) \<and> count \<le> c \<and>
         (count \<le> limit \<longrightarrow> c \<le> limit)"
proof (induction n arbitrary: g count)
  case 0
  then have fb: "findBestCell g = None"
    using numEmpty_pos[of _ _ g] by (cases "findBestCell g") (auto dest!: findBestCell_Some)
  then show ?case by (simp add: countSolutions.simps)
next
  case (Suc m)
  show ?case
  proof (cases "limit \<le> count")
    case True
    then show ?thesis by (simp add: countSolutions.simps)
  next
    case lt: False
    show ?thesis
    proof (cases "findBestCell g")
      case None
      with lt show ?thesis by (simp add: countSolutions.simps)
    next
      case (Some p)
      obtain row col where p: "p = (row, col)" by (cases p)
      from Some p have rc: "row < 9" "col < 9" and z: "cell g row col = 0"
        by (auto dest: findBestCell_Some)
      have nz: "0 \<notin> set (getCandidates g row col)" by (auto simp: set_getCandidates)
      have IH: "\<And>g count. wf_grid g \<Longrightarrow> numEmpty g \<le> m \<Longrightarrow>
        \<exists>c. countSolutions m g count limit = Some (g, c) \<and> count \<le> c \<and> (count \<le> limit \<longrightarrow> c \<le> limit)"
        by (rule Suc.IH)
      have "\<exists>c. countLoop m row col (getCandidates g row col) g count limit = Some (g, c) \<and>
          count \<le> c \<and> (count \<le> limit \<longrightarrow> c \<le> limit)"
        using IH Suc.prems(1) rc z Suc.prems(2) nz by (rule countLoop_total)
      with Some p lt show ?thesis by (simp add: countSolutions.simps)
    qed
  qed
qed

lemma legalGrid_extends:
  assumes e: "extendsGrid g h" and lh: "legalGrid h"
  shows "legalGrid g"
  unfolding legalGrid_iff
proof (intro allI impI)
  fix r c :: nat assume rc: "r < 9" "c < 9"
  show "cell g r c = 0 \<or> (1 \<le> cell g r c \<and> cell g r c \<le> 9 \<and> isValidInGrid g r c (cell g r c))"
  proof (cases "cell g r c = 0")
    case True
    then show ?thesis by simp
  next
    case False
    with e rc have eq: "cell h r c = cell g r c" by (simp add: extendsGrid_iff)
    from lh rc have "cell h r c = 0 \<or>
        (1 \<le> cell h r c \<and> cell h r c \<le> 9 \<and> isValidInGrid h r c (cell h r c))"
      unfolding legalGrid_iff by blast
    with False eq have h: "1 \<le> cell g r c" "cell g r c \<le> 9" "isValidInGrid h r c (cell g r c)"
      by simp_all
    have "isValidInGrid g r c (cell g r c)"
      unfolding isValidInGrid_iff[OF rc]
    proof (intro allI impI)
      fix a b :: nat assume ab: "a < 9" "b < 9" "(a \<noteq> r \<or> b \<noteq> c) \<and> sameUnit r c a b"
      show "cell g a b \<noteq> cell g r c"
      proof
        assume q: "cell g a b = cell g r c"
        with False e ab have "cell h a b = cell g r c" by (simp add: extendsGrid_iff)
        with h(3) ab show False by (simp add: isValidInGrid_iff[OF rc])
      qed
    qed
    with h show ?thesis by simp
  qed
qed

lemma completion_legal: "completion g h \<Longrightarrow> legalGrid g"
  unfolding completion_def using legalGrid_extends by blast

lemma completions_illegal: "\<not> legalGrid g \<Longrightarrow> completions g = {}"
  using completion_legal by (auto simp: completions_def)

section \<open>Claims about the solver and the counter\<close>

text \<open>
  C10: for every 9x9 grid and every random sequence \<open>solveBacktrack\<close> returns, and every cell
  that held a nonzero value at entry holds the same value at exit, whether the call returns
  \<open>true\<close> or \<open>false\<close>.  \<open>solvePuzzle\<close> is this call on the live board, so auto-solving alters
  no clue and no value already placed.
\<close>

theorem solveBacktrack_keeps_filled:
  assumes "wf_grid g"
  shows "\<exists>ok g' r'. solveBacktrack 81 g r = Some (ok, g', r') \<and>
           (\<forall>a<9. \<forall>b<9. cell g a b \<noteq> 0 \<longrightarrow> cell g' a b = cell g a b) \<and>
           solvePuzzle (s\<lparr>board := g, rng := r\<rparr>) = Some (ok, s\<lparr>board := g', rng := r'\<rparr>)"
proof -
  from solveBacktrack_81[OF assms, of r] obtain ok g' r' where
    run: "solveBacktrack 81 g r = Some (ok, g', r')" by (cases "solveBacktrack 81 g r") auto
  from solveBacktrack_frame[OF assms run] run show ?thesis by (simp add: solvePuzzle_def)
qed

theorem solveBacktrack_keeps_filled_witness:
  "solveBacktrack 81 twoEmpty [2, 7] = Some (True, solvedGrid, []) \<and>
   cell twoEmpty 0 1 = 2 \<and> cell solvedGrid 0 1 = 2"
proof -
  have wf: "wf_grid twoEmpty" by code_simp
  have run: "solveBacktrack 81 twoEmpty [2, 7] = Some (True, solvedGrid, [])" by code_simp
  have c: "cell twoEmpty 0 1 = 2" by code_simp
  from solveBacktrack_keeps_filled[OF wf, of "[2, 7]" "newGameState []"] run
  have "\<forall>a<9. \<forall>b<9. cell twoEmpty a b \<noteq> 0 \<longrightarrow> cell solvedGrid a b = cell twoEmpty a b"
    by auto
  with c have "cell solvedGrid 0 1 = 2" by simp
  with run c show ?thesis by simp
qed

text \<open>
  C4, as stated, fails on a grid whose filled cells already conflict: on the full grid of
  ones \<open>solveBacktrack\<close> returns \<open>true\<close> at once, and the grid is not a legal assignment.
\<close>

theorem solveBacktrack_all_ones:
  "solveBacktrack 81 onesGrid [] = Some (True, onesGrid, []) \<and> \<not> legalGrid onesGrid"
  by code_simp

text \<open>
  C4, amended: for every 9x9 grid \<open>solveBacktrack\<close> returns; if it returns \<open>false\<close> the grid
  is identical to the grid before the call and no complete legal assignment extends it; if
  it returns \<open>true\<close> the grid is complete and extends the initial grid, and it is a legal
  assignment whenever the filled cells of the initial grid were legal.
\<close>

theorem solveBacktrack_result:
  assumes "wf_grid g"
  shows "\<exists>ok g' r'. solveBacktrack 81 g r = Some (ok, g', r') \<and>
           (\<not> ok \<longrightarrow> g' = g \<and> (\<forall>h. \<not> completion g h)) \<and>
           (ok \<longrightarrow> wf_grid g' \<and> completeGrid g' \<and> extendsGrid g g' \<and>
                  (legalGrid g \<longrightarrow> legalGrid g'))"
proof -
  from solveBacktrack_81[OF assms, of r] obtain ok g' r' where
    run: "solveBacktrack 81 g r = Some (ok, g', r')" by (cases "solveBacktrack 81 g r") auto
  note fr = solveBacktrack_frame[OF assms run]
  show ?thesis
  proof (cases ok)
    case True
    with solveBacktrack_success[OF assms, of 81 r g' r'] run
    have "completeGrid g'" "legalGrid g \<longrightarrow> legalGrid g'" by simp_all
    moreover from fr have "extendsGrid g g'" by (simp add: extendsGrid_iff)
    ultimately have "solveBacktrack 81 g r = Some (True, g', r') \<and>
           (\<not> True \<longrightarrow> g' = g \<and> (\<forall>h. \<not> completion g h)) \<and>
           (True \<longrightarrow> wf_grid g' \<and> completeGrid g' \<and> extendsGrid g g' \<and>
                  (legalGrid g \<longrightarrow> legalGrid g'))"
      using run fr True by simp
    then show ?thesis by blast
  next
    case False
    have "\<not> completion g h" for h
    proof
      assume "completion g h"
      from solveBacktrack_finds[OF assms numEmpty_le this, of r] run False show False by simp
    qed
    with run fr False have "solveBacktrack 81 g r = Some (False, g', r') \<and>
           (\<not> False \<longrightarrow> g' = g \<and> (\<forall>h. \<not> completion g h)) \<and>
           (False \<longrightarrow> wf_grid g' \<and> completeGrid g' \<and> extendsGrid g g' \<and>
                  (legalGrid g \<longrightarrow> legalGrid g'))"
      by simp
    then show ?thesis by blast
  qed
qed

theorem solveBacktrack_result_witness:
  "solveBacktrack 81 twoEmpty [2, 7] = Some (True, solvedGrid, []) \<and> legalGrid solvedGrid \<and>
   completeGrid solvedGrid \<and> extendsGrid twoEmpty solvedGrid \<and>
   solveBacktrack 81 deadGrid [2, 7] = Some (False, deadGrid, [2, 7]) \<and>
   (\<forall>h. \<not> completion deadGrid h)"
proof -
  have wf: "wf_grid twoEmpty" "wf_grid deadGrid" by code_simp+
  have lg: "legalGrid twoEmpty" by code_simp
  have run1: "solveBacktrack 81 twoEmpty [2, 7] = Some (True, solvedGrid, [])" by code_simp
  have run2: "solveBacktrack 81 deadGrid [2, 7] = Some (False, deadGrid, [2, 7])" by code_simp
  from solveBacktrack_result[OF wf(1), of "[2, 7]"] run1 lg
  have a: "legalGrid solvedGrid" "completeGrid solvedGrid" "extendsGrid twoEmpty solvedGrid"
    by auto
  from solveBacktrack_result[OF wf(2), of "[2, 7]"] run2
  have b: "\<forall>h. \<not> completion deadGrid h" by auto
  from run1 run2 a b show ?thesis by simp
qed

text \<open>
  C5, as stated, fails on the full grid of ones: the counter reports 1, while no complete
  legal grid extends it, so that the capped number of completions is 0.
\<close>

theorem countSolutions_all_ones:
  "countSolutions 81 onesGrid 0 2 = Some (onesGrid, 1) \<and>
   min 2 (int (card (completions onesGrid))) = 0"
proof -
  have "\<not> legalGrid onesGrid" by code_simp
  then have "completions onesGrid = {}" by (rule completions_illegal)
  moreover have "countSolutions 81 onesGrid 0 2 = Some (onesGrid, 1)" by code_simp
  ultimately show ?thesis by simp
qed

lemma countLoop_at_limit:
  "limit \<le> cnt \<Longrightarrow> countLoop m row col nums g cnt limit = Some (g, cnt)"
  by (cases nums) simp_all

text \<open>
  C5, amended: for every 9x9 grid and every limit \<open>\<ge> 0\<close>, \<open>countSolutions\<close> started from 0
  returns a count between 0 and the limit and leaves the grid as it was; when the filled
  cells of the grid are legal the count is the minimum of the limit and the number of
  completions; \<open>hasUniqueSolution\<close> is true exactly when the count for limit 2 is 1; and a call
  or a loop entered with the count at the limit returns at once, trying no assignment.
\<close>

theorem countSolutions_capped:
  assumes "wf_grid g" and "0 \<le> limit"
  shows "(\<exists>c. countSolutions 81 g 0 limit = Some (g, c) \<and> 0 \<le> c \<and> c \<le> limit \<and>
              (legalGrid g \<longrightarrow> c = min limit (int (card (completions g))))) \<and>
         (\<exists>c2. countSolutions 81 g 0 2 = Some (g, c2) \<and>
              hasUniqueSolution (s\<lparr>board := g\<rparr>) = Some (c2 = 1)) \<and>
         (\<forall>n cnt. limit \<le> cnt \<longrightarrow> countSolutions n g cnt limit = Some (g, cnt)) \<and>
         (\<forall>m row col nums cnt. limit \<le> cnt \<longrightarrow>
              countLoop m row col nums g cnt limit = Some (g, cnt))"
proof (intro conjI)
  from countSolutions_total[OF assms(1) numEmpty_le, of 0 limit] assms(2) obtain c where
    c: "countSolutions 81 g 0 limit = Some (g, c)" "0 \<le> c" "c \<le> limit" by auto
  have "c = min limit (int (card (completions g)))" if "legalGrid g"
    using countSolutions_spec[OF assms(1) that numEmpty_le, of 0 limit] c(1) assms(2)
    by (auto split: if_splits)
  with c show "\<exists>c. countSolutions 81 g 0 limit = Some (g, c) \<and> 0 \<le> c \<and> c \<le> limit \<and>
              (legalGrid g \<longrightarrow> c = min limit (int (card (completions g))))" by blast
  from countSolutions_total[OF assms(1) numEmpty_le, of 0 2] obtain c2 where
    "countSolutions 81 g 0 2 = Some (g, c2)" by auto
  then show "\<exists>c2. countSolutions 81 g 0 2 = Some (g, c2) \<and>
              hasUniqueSolution (s\<lparr>board := g\<rparr>) = Some (c2 = 1)"
    by (simp add: hasUniqueSolution_def)
  show "\<forall>n cnt. limit \<le> cnt \<longrightarrow> countSolutions n g cnt limit = Some (g, cnt)"
    by (simp add: countSolutions.simps)
  show "\<forall>m row col nums cnt. limit \<le> cnt \<longrightarrow>
              countLoop m row col nums g cnt limit = Some (g, cnt)"
    by (simp add: countLoop_at_limit)
qed

theorem countSolutions_capped_witness:
  "countSolutions 81 twoEmpty 0 2 = Some (twoEmpty, 1) \<and> card (completions twoEmpty) = 1 \<and>
   hasUniqueSolution ((newGameState [])\<lparr>board := twoEmpty\<rparr>) = Some True \<and>
   countSolutions 81 twoEmpty 2 2 = Some (twoEmpty, 2)"
proof -
  have wf: "wf_grid twoEmpty" by code_simp
  have lg: "legalGrid twoEmpty" by code_simp
  have run: "countSolutions 81 twoEmpty 0 2 = Some (twoEmpty, 1)" by code_simp
  note t = countSolutions_capped[OF wf, of 2 "newGameState []"]
  from t run lg have "(1::int) = min 2 (int (card (completions twoEmpty)))" by simp
  then have "card (completions twoEmpty) = 1" by (simp add: min_def split: if_splits)
  moreover from t run have "hasUniqueSolution ((newGameState [])\<lparr>board := twoEmpty\<rparr>) = Some True"
    by simp
  moreover from t have "countSolutions 81 twoEmpty 2 2 = Some (twoEmpty, 2)" by simp
  ultimately show ?thesis using run by simp
qed

section \<open>The puzzle generator\<close>

lemma removeLoop_Cons:
  "removeLoop ((row, col) # ps) s =
     (case hasUniqueSolution (cleared s row col) of
        None \<Rightarrow> None
      | Some True \<Rightarrow> removeLoop ps (cleared s row col)
      | Some False \<Rightarrow> removeLoop ps (reverted s row col))"
  by (simp add: cleared_def reverted_def Let_def split: option.split bool.split)

declare removeLoop.simps(2) [simp del]

lemma board_cleared [simp]: "board (cleared s row col) = setCell (board s) row col 0"
  by (simp add: cleared_def)

lemma board_reverted:
  "wf_grid (board s) \<Longrightarrow> row < 9 \<Longrightarrow> board (reverted s row col) = board s"
  by (simp add: reverted_def setCell_restore)

lemma solution_cleared [simp]: "solution (cleared s row col) = solution s"
  and rng_cleared [simp]: "rng (cleared s row col) = rng s"
  and solution_reverted [simp]: "solution (reverted s row col) = solution s"
  and rng_reverted [simp]: "rng (reverted s row col) = rng s"
  by (simp_all add: cleared_def reverted_def)

lemma hasUniqueSolution_board:
  "board s = board t \<Longrightarrow> hasUniqueSolution s = hasUniqueSolution t"
  by (simp add: hasUniqueSolution_def)

lemma hasUniqueSolution_legal:
  assumes "wf_grid (board s)" "legalGrid (board s)"
  shows "hasUniqueSolution s = Some (card (completions (board s)) = 1)"
proof -
  have "countSolutions 81 (board s) 0 2 =
      Some (board s, min 2 (int (card (completions (board s)))))"
    using countSolutions_spec[OF assms numEmpty_le, of 0 2] by simp
  then show ?thesis by (auto simp: hasUniqueSolution_def min_def)
qed

lemma extendsGrid_clear:
  assumes wf: "wf_grid g" and rc: "r < 9" "c < 9" and e: "extendsGrid g h"
  shows "extendsGrid (setCell g r c 0) h"
  using e by (auto simp: extendsGrid_iff cell_setCell[OF wf rc])

lemma completion_clear:
  "wf_grid g \<Longrightarrow> r < 9 \<Longrightarrow> c < 9 \<Longrightarrow> completion g h \<Longrightarrow> completion (setCell g r c 0) h"
  by (simp add: completion_def extendsGrid_clear)

lemma wf_fixedD: "wf_fixed f \<Longrightarrow> length f = 9" "wf_fixed f \<Longrightarrow> r < 9 \<Longrightarrow> length (f ! r) = 9"
  by (auto simp: wf_fixed_def list_all_length)

lemma wf_setFixed: "wf_fixed f \<Longrightarrow> r < 9 \<Longrightarrow> wf_fixed (setFixed f r c v)"
  by (auto simp: wf_fixed_def setFixed_def list_all_length nth_list_update)

lemma nth_setFixed:
  "wf_fixed f \<Longrightarrow> r < 9 \<Longrightarrow> c < 9 \<Longrightarrow>
   setFixed f r c v ! r' ! c' = (if r' = r \<and> c' = c then v else f ! r' ! c')"
  by (auto simp: setFixed_def wf_fixedD nth_list_update)

lemma fixedMatches_iff:
  "fixedMatches s = (wf_fixed (fixed s) \<and>
      (\<forall>r<9. \<forall>c<9. fixed s ! r ! c = (cell (board s) r c \<noteq> 0)))"
  by (auto simp: fixedMatches_def list_all_iff set_allPositions)

lemma fixedMatches_cleared:
  assumes "fixedMatches s" "wf_grid (board s)" "row < 9" "col < 9"
  shows "fixedMatches (cleared s row col)"
  using assms
  by (auto simp: fixedMatches_iff cleared_def wf_setFixed nth_setFixed cell_setCell)

lemma fixedMatches_reverted:
  assumes "fixedMatches s" "wf_grid (board s)" "row < 9" "col < 9" "cell (board s) row col \<noteq> 0"
  shows "fixedMatches (reverted s row col)"
proof -
  have b: "board (reverted s row col) = board s" using assms by (simp add: board_reverted)
  have f: "fixed (reverted s row col) = setFixed (setFixed (fixed s) row col False) row col True"
    by (simp add: reverted_def cleared_def)
  from assms have wf: "wf_fixed (fixed s)" by (simp add: fixedMatches_iff)
  show ?thesis
    unfolding fixedMatches_iff b f using assms wf
    by (auto simp: fixedMatches_iff wf_setFixed nth_setFixed)
qed

lemma removePre_D:
  assumes "removePre S ps s"
  shows "wf_grid (board s)" "completion (board s) S" "solution s = S"
    "hasUniqueSolution s = Some True" "fixedMatches s" "distinct ps"
    "\<And>r c. (r, c) \<in> set ps \<Longrightarrow> r < 9 \<and> c < 9 \<and> cell (board s) r c \<noteq> 0"
  using assms by (auto simp: removePre_def list_all_iff)

lemma removePreI:
  assumes "wf_grid (board s)" "completion (board s) S" "solution s = S"
    "hasUniqueSolution s = Some True" "fixedMatches s" "distinct ps"
    "\<And>r c. (r, c) \<in> set ps \<Longrightarrow> r < 9 \<and> c < 9 \<and> cell (board s) r c \<noteq> 0"
  shows "removePre S ps s"
  using assms by (auto simp: removePre_def list_all_iff)

lemma remove_step:
  assumes pre: "removePre S ((row, col) # ps) s"
  shows "\<exists>s1. removeLoop ((row, col) # ps) s = removeLoop ps s1 \<and> removePre S ps s1 \<and>
      rng s1 = rng s \<and>
      ((board s1 = board s \<and> 2 \<le> card (completions (setCell (board s) row col 0))) \<or>
       board s1 = setCell (board s) row col 0)"
proof -
  note d = removePre_D[OF pre]
  let ?b = "board s" and ?b1 = "setCell (board s) row col 0"
  from d(7)[of row col] have rc: "row < 9" "col < 9" and nz: "cell ?b row col \<noteq> 0" by auto
  have wf1: "wf_grid ?b1" using d(1) by simp
  have cp1: "completion ?b1 S" by (rule completion_clear[OF d(1) rc d(2)])
  have lg1: "legalGrid ?b1" by (rule completion_legal[OF cp1])
  have hu: "hasUniqueSolution (cleared s row col) = Some (card (completions ?b1) = 1)"
    using hasUniqueSolution_legal[of "cleared s row col"] wf1 lg1 by simp
  have dps: "distinct ps" and notin: "(row, col) \<notin> set ps" using d(6) by auto
  have rest: "r < 9 \<and> c < 9 \<and> cell ?b r c \<noteq> 0" if "(r, c) \<in> set ps" for r c
    using d(7)[of r c] that by simp
  show ?thesis
  proof (cases "card (completions ?b1) = 1")
    case True
    let ?s1 = "cleared s row col"
    have "removeLoop ((row, col) # ps) s = removeLoop ps ?s1"
      using hu True by (simp add: removeLoop_Cons)
    moreover have "removePre S ps ?s1"
    proof (rule removePreI)
      show "wf_grid (board ?s1)" using wf1 by simp
      show "completion (board ?s1) S" using cp1 by simp
      show "solution ?s1 = S" using d(3) by simp
      show "hasUniqueSolution ?s1 = Some True" using hu True by simp
      show "fixedMatches ?s1" by (rule fixedMatches_cleared[OF d(5) d(1) rc])
      show "distinct ps" by (rule dps)
      fix r c assume m: "(r, c) \<in> set ps"
      with notin have "\<not> (r = row \<and> c = col)" by auto
      then have "cell (board ?s1) r c = cell ?b r c" by (auto simp: cell_setCell[OF d(1) rc])
      with rest[OF m] show "r < 9 \<and> c < 9 \<and> cell (board ?s1) r c \<noteq> 0" by simp
    qed
    ultimately show ?thesis by (intro exI[of _ ?s1]) simp
  next
    case False
    let ?s1 = "reverted s row col"
    have bs: "board ?s1 = ?b" by (rule board_reverted[OF d(1) rc(1)])
    have "S \<in> completions ?b1" using cp1 by (simp add: completions_def)
    then have "card (completions ?b1) \<noteq> 0" by auto
    with False have two: "2 \<le> card (completions ?b1)" by arith
    have "removeLoop ((row, col) # ps) s = removeLoop ps ?s1"
      using hu False by (simp add: removeLoop_Cons)
    moreover have "removePre S ps ?s1"
    proof (rule removePreI)
      show "wf_grid (board ?s1)" using d(1) bs by simp
      show "completion (board ?s1) S" using d(2) bs by simp
      show "solution ?s1 = S" using d(3) by simp
      show "hasUniqueSolution ?s1 = Some True"
        using hasUniqueSolution_board[OF bs] d(4) by simp
      show "fixedMatches ?s1" by (rule fixedMatches_reverted[OF d(5) d(1) rc nz])
      show "distinct ps" by (rule dps)
      fix r c assume m: "(r, c) \<in> set ps"
      with rest[OF m] bs show "r < 9 \<and> c < 9 \<and> cell (board ?s1) r c \<noteq> 0" by simp
    qed
    ultimately show ?thesis using bs two by (intro exI[of _ ?s1]) simp
  qed
qed

lemma completions_mono:
  assumes wf: "wf_grid b'" and rc: "row < 9" "col < 9"
    and sub: "\<And>a c. a < 9 \<Longrightarrow> c < 9 \<Longrightarrow> cell b' a c \<noteq> 0 \<Longrightarrow> \<not> (a = row \<and> c = col) \<Longrightarrow>
        cell g a c = cell b' a c"
  shows "completions g \<subseteq> completions (setCell b' row col 0)"
proof
  fix h assume "h \<in> completions g"
  then have cp: "completion g h" by (simp add: completions_def)
  have "extendsGrid (setCell b' row col 0) h"
    unfolding extendsGrid_iff
  proof (intro allI impI)
    fix a c :: nat assume ac: "a < 9" "c < 9" "cell (setCell b' row col 0) a c \<noteq> 0"
    then have ne: "\<not> (a = row \<and> c = col)" and nz: "cell b' a c \<noteq> 0"
      and eq: "cell (setCell b' row col 0) a c = cell b' a c"
      by (auto simp: cell_setCell[OF wf rc] split: if_splits)
    from sub[OF ac(1,2) nz ne] nz have "cell g a c = cell b' a c" "cell g a c \<noteq> 0" by simp_all
    with cp ac eq show "cell h a c = cell (setCell b' row col 0) a c"
      by (simp add: completion_def extendsGrid_iff)
  qed
  with cp show "h \<in> completions (setCell b' row col 0)"
    by (simp add: completions_def completion_def)
qed

lemma removeLoop_inv:
  "removePre S ps s \<Longrightarrow>
     \<exists>s'. removeLoop ps s = Some s' \<and> removePre S [] s' \<and> rng s' = rng s \<and>
       (\<forall>a<9. \<forall>b<9. cell (board s') a b = cell (board s) a b \<or>
                      (cell (board s') a b = 0 \<and> (a, b) \<in> set ps)) \<and>
       (\<forall>a<9. \<forall>b<9. (a, b) \<in> set ps \<and> cell (board s') a b \<noteq> 0 \<longrightarrow>
            2 \<le> card (completions (setCell (board s') a b 0)))"
proof (induction ps arbitrary: s)
  case Nil
  then show ?case by simp
next
  case (Cons p ps)
  obtain row col where p: "p = (row, col)" by (cases p)
  note d = removePre_D[OF Cons.prems[unfolded p]]
  from d(7)[of row col] have rc: "row < 9" "col < 9" by auto
  from remove_step[OF Cons.prems[unfolded p]] obtain s1 where
    s1: "removeLoop ((row, col) # ps) s = removeLoop ps s1" "removePre S ps s1" "rng s1 = rng s"
      "(board s1 = board s \<and> 2 \<le> card (completions (setCell (board s) row col 0))) \<or>
       board s1 = setCell (board s) row col 0"
    by blast
  from Cons.IH[OF s1(2)] obtain s' where
    s': "removeLoop ps s1 = Some s'" "removePre S [] s'" "rng s' = rng s1"
      and cells: "\<And>a b. a < 9 \<Longrightarrow> b < 9 \<Longrightarrow> cell (board s') a b = cell (board s1) a b \<or>
                      (cell (board s') a b = 0 \<and> (a, b) \<in> set ps)"
      and vis: "\<And>a b. a < 9 \<Longrightarrow> b < 9 \<Longrightarrow> (a, b) \<in> set ps \<Longrightarrow> cell (board s') a b \<noteq> 0 \<Longrightarrow>
            2 \<le> card (completions (setCell (board s') a b 0))"
    by blast
  have wf': "wf_grid (board s')" using removePre_D(1)[OF s'(2)] .
  have notin: "(row, col) \<notin> set ps" using d(6) by auto
  have c1: "cell (board s1) a b = cell (board s) a b \<or> (cell (board s1) a b = 0 \<and> a = row \<and> b = col)"
    if "a < 9" "b < 9" for a b
    using s1(4) by (auto simp: cell_setCell[OF d(1) rc] split: if_splits)
  have cells': "cell (board s') a b = cell (board s) a b \<or>
                      (cell (board s') a b = 0 \<and> (a, b) \<in> set (p # ps))"
    if "a < 9" "b < 9" for a b
    using cells[OF that] c1[OF that] p by auto
  have vis': "2 \<le> card (completions (setCell (board s') a b 0))"
    if ab: "a < 9" "b < 9" and m: "(a, b) \<in> set (p # ps)" and nz: "cell (board s') a b \<noteq> 0" for a b
  proof (cases "(a, b) \<in> set ps")
    case True
    from vis[OF ab True nz] show ?thesis .
  next
    case False
    with m p have ab_eq: "a = row" "b = col" by auto
    from cells[OF rc] notin have same: "cell (board s') row col = cell (board s1) row col" by auto
    with nz ab_eq have nz1: "cell (board s1) row col \<noteq> 0" by simp
    with s1(4) have bs: "board s1 = board s"
      and two: "2 \<le> card (completions (setCell (board s) row col 0))"
      by (auto simp: cell_setCell[OF d(1) rc])
    have "completions (setCell (board s) row col 0) \<subseteq> completions (setCell (board s') row col 0)"
    proof (rule completions_mono[OF wf' rc])
      fix a c :: nat assume ac: "a < 9" "c < 9" "cell (board s') a c \<noteq> 0" "\<not> (a = row \<and> c = col)"
      from cells[OF ac(1,2)] ac(3) bs have "cell (board s') a c = cell (board s) a c" by auto
      with ac(4) show "cell (setCell (board s) row col 0) a c = cell (board s') a c"
        by (auto simp: cell_setCell[OF d(1) rc])
    qed
    then have "card (completions (setCell (board s) row col 0))
        \<le> card (completions (setCell (board s') row col 0))"
      by (intro card_mono) simp_all
    with two show ?thesis unfolding ab_eq by simp
  qed
  from s1(1) s'(1) p have run: "removeLoop (p # ps) s = Some s'" by simp
  have A: "\<forall>a<9. \<forall>b<9. cell (board s') a b = cell (board s) a b \<or>
                      (cell (board s') a b = 0 \<and> (a, b) \<in> set (p # ps))"
    using cells' by blast
  have B: "\<forall>a<9. \<forall>b<9. (a, b) \<in> set (p # ps) \<and> cell (board s') a b \<noteq> 0 \<longrightarrow>
            2 \<le> card (completions (setCell (board s') a b 0))"
    using vis' by blast
  from run s'(2) s'(3) s1(3) A B show ?case by simp
qed

lemma solvedGrid_completion: "completion emptyGrid solvedGrid"
proof -
  have "wf_grid solvedGrid" "completeGrid solvedGrid" "legalGrid solvedGrid"
    by code_simp+
  moreover have "extendsGrid emptyGrid solvedGrid"
    by (simp add: extendsGrid_iff cell_emptyGrid)
  ultimately show ?thesis by (simp add: completion_def)
qed

lemma legal_emptyGrid: "legalGrid emptyGrid"
  by (simp add: legalGrid_iff cell_emptyGrid)

lemma generation:
  "\<exists>S r0. solveBacktrack 81 emptyGrid r = Some (True, S, r0) \<and>
      wf_grid S \<and> completeGrid S \<and> legalGrid S"
proof -
  from solveBacktrack_finds[OF wf_emptyGrid numEmpty_le solvedGrid_completion, of r]
  obtain S r0 where run: "solveBacktrack 81 emptyGrid r = Some (True, S, r0)" by blast
  from solveBacktrack_frame[OF wf_emptyGrid run] have "wf_grid S" by simp
  moreover from solveBacktrack_success[OF wf_emptyGrid run] legal_emptyGrid
  have "completeGrid S" "legalGrid S" by simp_all
  ultimately show ?thesis using run by blast
qed

lemma uniform_int_range:
  "uniform_int 0 5 r = (off, r2) \<Longrightarrow> 0 \<le> off \<and> off \<le> 5"
  by (cases "draw r") (auto simp: uniform_int_def)

lemma initial_removePre:
  assumes S: "wf_grid S" "completeGrid S" "legalGrid S"
    and ps: "distinct ps" "set ps \<subseteq> set allPositions"
    and s: "board s = S" "solution s = S" "fixed s = replicate 9 (replicate 9 True)"
  shows "removePre S ps s"
proof (rule removePreI)
  show "wf_grid (board s)" using S s by simp
  show cp: "completion (board s) S" using S s by (simp add: completion_def extendsGrid_iff)
  show "solution s = S" by fact
  have "completions S = {S}" by (rule completions_complete[OF S(1,3,2)])
  then show "hasUniqueSolution s = Some True"
    using hasUniqueSolution_legal[of s] S s by simp
  show "fixedMatches s"
    using S(2) s by (simp add: fixedMatches_iff wf_fixed_def list_all_iff completeGrid_iff)
  show "distinct ps" by fact
  fix r c assume "(r, c) \<in> set ps"
  with ps(2) have "r < 9" "c < 9" by (auto simp: set_allPositions)
  with S(2) s show "r < 9 \<and> c < 9 \<and> cell (board s) r c \<noteq> 0" by (simp add: completeGrid_iff)
qed

lemma createPuzzle_run:
  obtains S r0 ps r1 off r2 s' where
    "solveBacktrack 81 emptyGrid (rng s) = Some (True, S, r0)"
    "shuffle allPositions r0 = (ps, r1)" "uniform_int 0 5 r1 = (off, r2)"
    "createPuzzle d s = Some (Inr s')" "removePre S [] s'" "rng s' = r2"
    "wf_grid S" "completeGrid S" "legalGrid S"
    "\<forall>a<9. \<forall>b<9. cell (board s') a b = cell S a b \<or>
           (cell (board s') a b = 0 \<and>
            (a, b) \<in> set (take (nat (81 - (difficultyValue d + off))) ps))"
    "\<forall>a<9. \<forall>b<9. (a, b) \<in> set (take (nat (81 - (difficultyValue d + off))) ps) \<and>
            cell (board s') a b \<noteq> 0 \<longrightarrow>
            2 \<le> card (completions (setCell (board s') a b 0))"
proof -
  from generation[of "rng s"] obtain S r0 where
    gen: "solveBacktrack 81 emptyGrid (rng s) = Some (True, S, r0)"
    and S: "wf_grid S" "completeGrid S" "legalGrid S" by blast
  obtain ps r1 where sh: "shuffle allPositions r0 = (ps, r1)"
    by (cases "shuffle allPositions r0")
  obtain off r2 where un: "uniform_int 0 5 r1 = (off, r2)"
    by (cases "uniform_int 0 5 r1")
  define vis where "vis = take (nat (81 - (difficultyValue d + off))) ps"
  define s2 where "s2 = s\<lparr>solution := S, board := S,
      fixed := replicate 9 (replicate 9 True), rng := r2\<rparr>"
  have dps: "distinct ps" "set ps = set allPositions"
    using distinct_shuffle[OF distinct_allPositions, of r0] set_shuffle[of allPositions r0] sh
    by simp_all
  have "distinct vis" "set vis \<subseteq> set allPositions"
    using dps set_take_subset[of "nat (81 - (difficultyValue d + off))" ps]
    by (auto simp: vis_def)
  then have pre: "removePre S vis s2"
    by (rule initial_removePre[OF S]) (simp_all add: s2_def)
  from removeLoop_inv[OF pre] obtain s' where
    s': "removeLoop vis s2 = Some s'" "removePre S [] s'" "rng s' = rng s2"
    "\<forall>a<9. \<forall>b<9. cell (board s') a b = cell (board s2) a b \<or>
                      (cell (board s') a b = 0 \<and> (a, b) \<in> set vis)"
    "\<forall>a<9. \<forall>b<9. (a, b) \<in> set vis \<and> cell (board s') a b \<noteq> 0 \<longrightarrow>
            2 \<le> card (completions (setCell (board s') a b 0))"
    by blast
  have "createPuzzle d s = Some (Inr s')"
    using gen sh un s'(1)
    by (simp add: createPuzzle_def generateSolution_def Let_def vis_def s2_def)
  have r2: "rng s' = r2" using s'(3) by (simp add: s2_def)
  have bS: "board s2 = S" by (simp add: s2_def)
  show ?thesis
    by (rule that[OF gen sh un \<open>createPuzzle d s = Some (Inr s')\<close> s'(2) r2 S
          s'(4)[unfolded bS vis_def] s'(5)[unfolded vis_def]])
qed

lemma numClues_numEmpty: "numClues g + numEmpty g = 81"
proof -
  have "(\<lambda>p. \<not> (case p of (r, c) \<Rightarrow> cell g r c \<noteq> 0)) = (\<lambda>(r, c). cell g r c = 0)"
    by auto
  with sum_length_filter_compl[of "\<lambda>(r, c). cell g r c \<noteq> 0" allPositions]
  show ?thesis by (simp add: numClues_def numEmpty_def length_allPositions)
qed

lemma numEmpty_subset:
  assumes "\<forall>a<9. \<forall>b<9. cell g a b = 0 \<longrightarrow> (a, b) \<in> set vs"
  shows "numEmpty g \<le> length vs"
proof -
  have "{p. case p of (a, b) \<Rightarrow> cell g a b = 0} \<inter> set allPositions \<subseteq> set vs"
    using assms by (auto simp: set_allPositions)
  then have "card ({p. case p of (a, b) \<Rightarrow> cell g a b = 0} \<inter> set allPositions) \<le> card (set vs)"
    by (intro card_mono) simp_all
  also have "\<dots> \<le> length vs" by (rule card_length)
  finally show ?thesis
    by (simp add: numEmpty_def distinct_length_filter[OF distinct_allPositions])
qed

lemma createPuzzle_clues:
  assumes run: "createPuzzle d s = Some (Inr s')"
  shows "\<exists>S r0 ps r1 off r2.
      solveBacktrack 81 emptyGrid (rng s) = Some (True, S, r0) \<and>
      shuffle allPositions r0 = (ps, r1) \<and> uniform_int 0 5 r1 = (off, r2) \<and>
      0 \<le> off \<and> off \<le> 5 \<and> removePre S [] s' \<and>
      difficultyValue d + off \<le> int (numClues (board s')) \<and>
      (\<forall>a<9. \<forall>b<9. cell (board s') a b = 0 \<longrightarrow>
          (a, b) \<in> set (take (nat (81 - (difficultyValue d + off))) ps))"
proof -
  obtain S r0 ps r1 off r2 s0 where
    h0: "solveBacktrack 81 emptyGrid (rng s) = Some (True, S, r0)"
      "shuffle allPositions r0 = (ps, r1)" "uniform_int 0 5 r1 = (off, r2)"
      "createPuzzle d s = Some (Inr s0)" "removePre S [] s0" "rng s0 = r2"
      "wf_grid S" "completeGrid S" "legalGrid S"
      "\<forall>a<9. \<forall>b<9. cell (board s0) a b = cell S a b \<or>
           (cell (board s0) a b = 0 \<and>
            (a, b) \<in> set (take (nat (81 - (difficultyValue d + off))) ps))"
      "\<forall>a<9. \<forall>b<9. (a, b) \<in> set (take (nat (81 - (difficultyValue d + off))) ps) \<and>
            cell (board s0) a b \<noteq> 0 \<longrightarrow>
            2 \<le> card (completions (setCell (board s0) a b 0))"
    by (rule createPuzzle_run[of s d])
  from h0(4) run have s0: "s0 = s'" by simp
  note h = h0(1,2,3) h0(5)[unfolded s0] h0(8) h0(10)[unfolded s0]
  let ?vis = "take (nat (81 - (difficultyValue d + off))) ps"
  note off = uniform_int_range[OF h(3)]
  have emp: "\<forall>a<9. \<forall>b<9. cell (board s') a b = 0 \<longrightarrow> (a, b) \<in> set ?vis"
  proof (intro allI impI)
    fix a b :: nat assume ab: "a < 9" "b < 9" and z: "cell (board s') a b = 0"
    from h(6) ab have "cell (board s') a b = cell S a b \<or>
           (cell (board s') a b = 0 \<and> (a, b) \<in> set ?vis)" by blast
    moreover from h(5) ab have "cell S a b \<noteq> 0" by (simp add: completeGrid_iff)
    ultimately show "(a, b) \<in> set ?vis" using z by auto
  qed
  from numEmpty_subset[OF emp] have "numEmpty (board s') \<le> nat (81 - (difficultyValue d + off))"
    by simp
  moreover have "difficultyValue d \<le> 35" by (cases d) simp_all
  ultimately have "difficultyValue d + off \<le> int (numClues (board s'))"
    using numClues_numEmpty[of "board s'"] off by linarith
  with h(1-4) off emp show ?thesis by blast
qed

text \<open>
  On a generated puzzle the mask marks exactly the filled cells, so \<open>getHintForCell\<close> never
  gives the fixed-cell result \<open>-3\<close> there: a clue is reported as already filled.
\<close>

lemma getHintForCell_created:
  assumes run: "createPuzzle d s = Some (Inr s')"
  shows "mvalue (getHintForCell s' row col) \<noteq> -3"
proof (cases "row < 0 \<or> 9 \<le> row \<or> col < 0 \<or> 9 \<le> col")
  case True
  then show ?thesis by (auto simp: getHintForCell_def mkMove_def)
next
  case False
  then have rc: "nat row < 9" "nat col < 9" by auto
  from createPuzzle_clues[OF run] obtain S where pre: "removePre S [] s'" by blast
  note d = removePre_D[OF pre]
  from d(5) rc have fx: "fixed s' ! nat row ! nat col = (cell (board s') (nat row) (nat col) \<noteq> 0)"
    by (simp add: fixedMatches_iff)
  from completion_cell_range[OF d(2) rc] d(3)
  have "cell (solution s') (nat row) (nat col) \<noteq> -3" by simp
  with False fx show ?thesis by (simp add: getHintForCell_def mkMove_def)
qed

lemma removePre_unique:
  assumes pre: "removePre S [] s'"
  shows "wf_grid (board s') \<and> legalGrid (board s') \<and> card (completions (board s')) = 1 \<and>
         completions (board s') = {solution s'} \<and>
         countSolutions 81 (board s') 0 2 = Some (board s', 1)"
proof -
  note d = removePre_D[OF pre]
  have lg: "legalGrid (board s')" by (rule completion_legal[OF d(2)])
  have one: "card (completions (board s')) = 1"
    using hasUniqueSolution_legal[OF d(1) lg] d(4) by simp
  then obtain x where x: "completions (board s') = {x}" by (rule card_1_singletonE)
  moreover have "S \<in> completions (board s')" using d(2) by (simp add: completions_def)
  ultimately have eq: "completions (board s') = {solution s'}" using d(3) by simp
  have "countSolutions 81 (board s') 0 2 = Some (board s', 1)"
    using countSolutions_spec[OF d(1) lg numEmpty_le, of 0 2] one by simp
  with d(1) lg one eq show ?thesis by simp
qed

text \<open>
  C1: \<open>createPuzzle\<close> succeeds for every difficulty and every random sequence, and every
  board it returns has exactly one legal completion, the reference solution:
  \<open>countSolutions(board, 2)\<close> gives 1, that is \<open>hasUniqueSolution\<close> is true, and the set of
  complete legal grids extending the board has one element.
\<close>

theorem createPuzzle_unique:
  "(\<exists>s'. createPuzzle d s = Some (Inr s')) \<and>
   (\<forall>s'. createPuzzle d s = Some (Inr s') \<longrightarrow>
      hasUniqueSolution s' = Some True \<and>
      countSolutions 81 (board s') 0 2 = Some (board s', 1) \<and>
      wf_grid (board s') \<and> legalGrid (board s') \<and>
      card (completions (board s')) = 1 \<and> completions (board s') = {solution s'})"
proof -
  obtain S s' where h: "createPuzzle d s = Some (Inr s')" "removePre S [] s'"
    by (rule createPuzzle_run[of s d])
  from removePre_unique[OF h(2)] removePre_D(4)[OF h(2)] h(1) show ?thesis by auto
qed

theorem createPuzzle_unique_witness:
  "\<exists>s'. createPuzzle EXPERT (newGameState [3, 1, 4]) = Some (Inr s') \<and>
        hasUniqueSolution s' = Some True \<and> card (completions (board s')) = 1 \<and>
        completions (board s') = {solution s'}"
  using createPuzzle_unique[of EXPERT "newGameState [3, 1, 4]"] by blast

lemma length_filter_card: "distinct ys \<Longrightarrow> length (filter P ys) = card {x \<in> set ys. P x}"
proof -
  assume "distinct ys"
  then have "length (filter P ys) = card ({x. P x} \<inter> set ys)" by (rule distinct_length_filter)
  also have "{x. P x} \<inter> set ys = {x \<in> set ys. P x}" by auto
  finally show ?thesis .
qed

lemma createPuzzle_count:
  obtains S r0 ps r1 off r2 s' where
    "solveBacktrack 81 emptyGrid (rng s) = Some (True, S, r0)"
    "shuffle allPositions r0 = (ps, r1)" "uniform_int 0 5 r1 = (off, r2)"
    "0 \<le> off" "off \<le> 5"
    "createPuzzle d s = Some (Inr s')" "removePre S [] s'"
    "wf_grid S" "completeGrid S" "legalGrid S"
    "length (take (nat (81 - (difficultyValue d + off))) ps) = nat (81 - (difficultyValue d + off))"
    "\<forall>a<9. \<forall>b<9. cell (board s') a b = cell S a b \<or>
           (cell (board s') a b = 0 \<and>
            (a, b) \<in> set (take (nat (81 - (difficultyValue d + off))) ps))"
    "int (numClues (board s')) = difficultyValue d + off +
       int (length (filter (\<lambda>(a, b). cell (board s') a b \<noteq> 0)
              (take (nat (81 - (difficultyValue d + off))) ps)))"
    "\<forall>a<9. \<forall>b<9. (a, b) \<in> set (take (nat (81 - (difficultyValue d + off))) ps) \<and>
            cell (board s') a b \<noteq> 0 \<longrightarrow>
            2 \<le> card (completions (setCell (board s') a b 0)) \<and>
            hasUniqueSolution (s'\<lparr>board := setCell (board s') a b 0\<rparr>) = Some False"
proof -
  obtain S r0 ps r1 off r2 s' where
    h: "solveBacktrack 81 emptyGrid (rng s) = Some (True, S, r0)"
      "shuffle allPositions r0 = (ps, r1)" "uniform_int 0 5 r1 = (off, r2)"
      "createPuzzle d s = Some (Inr s')" "removePre S [] s'" "rng s' = r2"
      "wf_grid S" "completeGrid S" "legalGrid S"
      "\<forall>a<9. \<forall>b<9. cell (board s') a b = cell S a b \<or>
           (cell (board s') a b = 0 \<and>
            (a, b) \<in> set (take (nat (81 - (difficultyValue d + off))) ps))"
      "\<forall>a<9. \<forall>b<9. (a, b) \<in> set (take (nat (81 - (difficultyValue d + off))) ps) \<and>
            cell (board s') a b \<noteq> 0 \<longrightarrow>
            2 \<le> card (completions (setCell (board s') a b 0))"
    by (rule createPuzzle_run[of s d])
  define k where "k = nat (81 - (difficultyValue d + off))"
  let ?P = "\<lambda>(a, b). cell (board s') a b \<noteq> 0"
  note off = uniform_int_range[OF h(3)]
  note dd = removePre_D[OF h(5)]
  have dv: "20 \<le> difficultyValue d" "difficultyValue d \<le> 35" by (cases d; simp)+
  have dps: "distinct ps" "set ps = set allPositions" "length ps = 81"
    using distinct_shuffle[OF distinct_allPositions, of r0] set_shuffle[of allPositions r0]
      length_shuffle[of allPositions r0] h(2)
    by (simp_all add: length_allPositions)
  have k: "k \<le> 81" "int k = 81 - (difficultyValue d + off)"
    using off dv unfolding k_def by linarith+
  have len: "length (take k ps) = k" using k dps by simp
  have unvis: "?P p" if "p \<in> set (drop k ps)" for p
  proof -
    obtain a b where p: "p = (a, b)" by (cases p)
    from that have "p \<in> set ps" by (rule in_set_dropD)
    with p dps have ab: "a < 9" "b < 9" by (auto simp: set_allPositions)
    have "p \<notin> set (take k ps)"
      using that dps(1) by (metis append_take_drop_id distinct_append disjoint_iff)
    with h(10)[rule_format, OF ab] p have "cell (board s') a b = cell S a b"
      by (simp add: k_def)
    moreover from h(8) ab have "cell S a b \<noteq> 0" by (simp add: completeGrid_iff)
    ultimately show ?thesis using p by simp
  qed
  then have "filter ?P (drop k ps) = drop k ps" by (simp add: filter_id_conv)
  then have rest: "length (filter ?P (drop k ps)) = 81 - k" using dps by simp
  have "numClues (board s') = card {x \<in> set allPositions. ?P x}"
    unfolding numClues_def by (rule length_filter_card[OF distinct_allPositions])
  also have "\<dots> = length (filter ?P ps)"
    using length_filter_card[OF dps(1), of ?P] dps(2) by simp
  also have "\<dots> = length (filter ?P (take k ps)) + length (filter ?P (drop k ps))"
    by (subst append_take_drop_id[of k ps, symmetric]) (simp del: append_take_drop_id)
  finally have "numClues (board s') = length (filter ?P (take k ps)) + (81 - k)"
    using rest by simp
  then have cnt: "int (numClues (board s')) = difficultyValue d + off +
       int (length (filter ?P (take k ps)))"
    using k by linarith
  have fail: "2 \<le> card (completions (setCell (board s') a b 0)) \<and>
            hasUniqueSolution (s'\<lparr>board := setCell (board s') a b 0\<rparr>) = Some False"
    if ab: "a < 9" "b < 9" and m: "(a, b) \<in> set (take k ps)" and nz: "cell (board s') a b \<noteq> 0"
    for a b
  proof -
    let ?b1 = "setCell (board s') a b 0"
    from h(11)[rule_format, OF ab] m nz have two: "2 \<le> card (completions ?b1)"
      by (simp add: k_def)
    have wf1: "wf_grid ?b1" using dd(1) by simp
    have lg1: "legalGrid ?b1"
      by (rule completion_legal[OF completion_clear[OF dd(1) ab dd(2)]])
    from hasUniqueSolution_legal[of "s'\<lparr>board := ?b1\<rparr>"] wf1 lg1 two
    show ?thesis by simp
  qed
  then have F: "\<forall>a<9. \<forall>b<9. (a, b) \<in> set (take k ps) \<and> cell (board s') a b \<noteq> 0 \<longrightarrow>
            2 \<le> card (completions (setCell (board s') a b 0)) \<and>
            hasUniqueSolution (s'\<lparr>board := setCell (board s') a b 0\<rparr>) = Some False"
    by blast
  show ?thesis
    by (rule that[OF h(1,2,3) off[THEN conjunct1] off[THEN conjunct2] h(4,5,7,8,9)
          len[unfolded k_def] h(10)
          cnt[unfolded k_def] F[unfolded k_def]])
qed

text \<open>
  C9, amended: for every random sequence, generating an Expert puzzle succeeds.  The board
  passes the uniqueness check and its only completion is the reference solution.  Every
  filled cell holds the value of the solution, and every empty cell is among the first
  \<open>81 - targetClues\<close> shuffled positions, where \<open>targetClues = 20 + offset\<close> with the offset
  drawn in \<open>[0,5]\<close>.  The clue count is \<open>targetClues\<close> plus the number of visited positions
  left filled, so it is at least \<open>targetClues\<close>, with no upper bound of 30.  A visited
  position is left filled only when its removal is rejected: the board with that cell cleared
  has at least two completions and fails the uniqueness check.
\<close>

theorem createPuzzle_expert:
  "\<exists>s' S r0 ps r1 off r2.
     createPuzzle EXPERT s = Some (Inr s') \<and>
     solveBacktrack 81 emptyGrid (rng s) = Some (True, S, r0) \<and>
     shuffle allPositions r0 = (ps, r1) \<and> uniform_int 0 5 r1 = (off, r2) \<and>
     0 \<le> off \<and> off \<le> 5 \<and>
     solution s' = S \<and> completeGrid S \<and> legalGrid S \<and>
     hasUniqueSolution s' = Some True \<and> completions (board s') = {S} \<and>
     length (take (nat (81 - (20 + off))) ps) = nat (81 - (20 + off)) \<and>
     (\<forall>a<9. \<forall>b<9. cell (board s') a b = cell S a b \<or>
          (cell (board s') a b = 0 \<and> (a, b) \<in> set (take (nat (81 - (20 + off))) ps))) \<and>
     int (numClues (board s')) = 20 + off +
       int (length (filter (\<lambda>(a, b). cell (board s') a b \<noteq> 0)
              (take (nat (81 - (20 + off))) ps))) \<and>
     20 + off \<le> int (numClues (board s')) \<and>
     (\<forall>a<9. \<forall>b<9. (a, b) \<in> set (take (nat (81 - (20 + off))) ps) \<and>
          cell (board s') a b \<noteq> 0 \<longrightarrow>
          2 \<le> card (completions (setCell (board s') a b 0)) \<and>
          hasUniqueSolution (s'\<lparr>board := setCell (board s') a b 0\<rparr>) = Some False)"
proof -
  obtain S r0 ps r1 off r2 s' where
    h: "solveBacktrack 81 emptyGrid (rng s) = Some (True, S, r0)"
    "shuffle allPositions r0 = (ps, r1)" "uniform_int 0 5 r1 = (off, r2)"
    "0 \<le> off" "off \<le> 5"
    "createPuzzle EXPERT s = Some (Inr s')" "removePre S [] s'"
    "wf_grid S" "completeGrid S" "legalGrid S"
    "length (take (nat (81 - (difficultyValue EXPERT + off))) ps)
       = nat (81 - (difficultyValue EXPERT + off))"
    "\<forall>a<9. \<forall>b<9. cell (board s') a b = cell S a b \<or>
           (cell (board s') a b = 0 \<and>
            (a, b) \<in> set (take (nat (81 - (difficultyValue EXPERT + off))) ps))"
    "int (numClues (board s')) = difficultyValue EXPERT + off +
       int (length (filter (\<lambda>(a, b). cell (board s') a b \<noteq> 0)
              (take (nat (81 - (difficultyValue EXPERT + off))) ps)))"
    "\<forall>a<9. \<forall>b<9. (a, b) \<in> set (take (nat (81 - (difficultyValue EXPERT + off))) ps) \<and>
            cell (board s') a b \<noteq> 0 \<longrightarrow>
            2 \<le> card (completions (setCell (board s') a b 0)) \<and>
            hasUniqueSolution (s'\<lparr>board := setCell (board s') a b 0\<rparr>) = Some False"
    by (rule createPuzzle_count[of s EXPERT])
  have dv: "difficultyValue EXPERT = 20" by simp
  note d = removePre_D[OF h(7)]
  from removePre_unique[OF h(7)] d(3)
  have u: "completions (board s') = {S}" by simp
  have ge: "20 + off \<le> int (numClues (board s'))" using h(13) unfolding dv by linarith
  show ?thesis
    using h(6) h(1,2,3,4,5) d(3) h(9,10) d(4) u h(11)[unfolded dv] h(12)[unfolded dv]
      h(13)[unfolded dv] ge h(14)[unfolded dv]
    by (intro exI conjI) assumption+
qed

text \<open>
  C7, amended: for every board and solution of a successful \<open>createPuzzle\<close> and every clue
  cell, clearing the cell and running the solver succeeds, for any random sequence, with a
  complete legal grid that agrees with every remaining clue; the result is the reference
  solution whenever the board with that clue cleared still passes the uniqueness check.
  Without clearing a clue the solver always reproduces the reference solution.
\<close>

theorem createPuzzle_resolve:
  assumes run: "createPuzzle d s = Some (Inr s')" and rc: "r < 9" "c < 9"
    and clue: "fixed s' ! r ! c"
  shows "(\<exists>g1 r1. solveBacktrack 81 (setCell (board s') r c 0) rng1 = Some (True, g1, r1) \<and>
            completion (setCell (board s') r c 0) g1 \<and>
            (hasUniqueSolution (s'\<lparr>board := setCell (board s') r c 0\<rparr>) = Some True
               \<longrightarrow> g1 = solution s')) \<and>
         (\<exists>r1. solveBacktrack 81 (board s') rng1 = Some (True, solution s', r1))"
proof -
  from createPuzzle_clues[OF run] obtain S where pre: "removePre S [] s'" by blast
  note d = removePre_D[OF pre]
  let ?b = "board s'" and ?b1 = "setCell (board s') r c 0"
  have solve: "\<exists>g1 r1. solveBacktrack 81 g rng1 = Some (True, g1, r1) \<and> completion g g1 \<and>
      (card (completions g) = 1 \<longrightarrow> g1 = S)"
    if wf: "wf_grid g" and cp: "completion g S" for g
  proof -
    from solveBacktrack_finds[OF wf numEmpty_le cp, of rng1] obtain g1 r1 where
      sb: "solveBacktrack 81 g rng1 = Some (True, g1, r1)" by blast
    from solveBacktrack_frame[OF wf sb] have "wf_grid g1" "extendsGrid g g1"
      by (simp_all add: extendsGrid_iff)
    moreover from solveBacktrack_success[OF wf sb] completion_legal[OF cp]
    have "completeGrid g1" "legalGrid g1" by simp_all
    ultimately have c1: "completion g g1" by (simp add: completion_def)
    have "g1 = S" if "card (completions g) = 1"
    proof -
      from that obtain x where "completions g = {x}" by (rule card_1_singletonE)
      moreover have "g1 \<in> completions g" "S \<in> completions g"
        using c1 cp by (simp_all add: completions_def)
      ultimately show ?thesis by simp
    qed
    with sb c1 show ?thesis by blast
  qed
  have wf1: "wf_grid ?b1" using d(1) by simp
  have cp1: "completion ?b1 S" by (rule completion_clear[OF d(1) rc d(2)])
  have hu1: "hasUniqueSolution (s'\<lparr>board := ?b1\<rparr>) = Some (card (completions ?b1) = 1)"
    using hasUniqueSolution_legal[of "s'\<lparr>board := ?b1\<rparr>"] wf1 completion_legal[OF cp1] by simp
  have hu: "card (completions ?b) = 1"
    using hasUniqueSolution_legal[OF d(1) completion_legal[OF d(2)]] d(4) by simp
  from solve[OF wf1 cp1] hu1 d(3)
  have A: "\<exists>g1 r1. solveBacktrack 81 ?b1 rng1 = Some (True, g1, r1) \<and> completion ?b1 g1 \<and>
            (hasUniqueSolution (s'\<lparr>board := ?b1\<rparr>) = Some True \<longrightarrow> g1 = solution s')"
    by auto
  from solve[OF d(1) d(2)] hu d(3)
  have B: "\<exists>r1. solveBacktrack 81 ?b rng1 = Some (True, solution s', r1)" by auto
  from A B show ?thesis by blast
qed

section \<open>A run of the generator\<close>

lemma indexOf_nth: "x \<in> set xs \<Longrightarrow> indexOf x xs < length xs \<and> xs ! indexOf x xs = x"
  by (induction xs) auto

lemma shuffle_zeros: "shuffle xs (replicate (length xs) 0 @ rest) = (xs, rest)"
proof (induction "length xs" arbitrary: xs)
  case 0
  then show ?case by simp
next
  case (Suc n)
  then obtain y ys where xs: "xs = y # ys" by (cases xs) auto
  with Suc have "shuffle ys (replicate (length ys) 0 @ rest) = (ys, rest)" by simp
  with xs show ?case by simp
qed

lemma shuffle_pick:
  assumes k: "k < length cs"
  shows "shuffle cs ((k # replicate (length cs - 1) 0) @ rest)
           = (cs ! k # take k cs @ drop (Suc k) cs, rest)"
proof -
  from k obtain y ys where cs: "cs = y # ys" by (cases cs) auto
  let ?others = "take k cs @ drop (Suc k) cs"
  have len: "length ?others = length cs - 1" using k by simp
  have "shuffle ?others (replicate (length cs - 1) 0 @ rest) = (?others, rest)"
    using shuffle_zeros[of ?others rest] len by simp
  then show ?thesis using k unfolding cs by (simp add: Let_def)
qed

lemma complete_extends_eq:
  assumes "wf_grid g" "completeGrid g" "completion g t"
  shows "g = t"
proof (rule grid_eqI)
  show "wf_grid g" by fact
  show "wf_grid t" using assms(3) by (simp add: completion_def)
  fix r c :: nat assume "r < 9" "c < 9"
  with assms(2,3) show "cell g r c = cell t r c"
    by (simp add: completion_def extendsGrid_iff completeGrid_iff)
qed

lemma guide_correct:
  "wf_grid g \<Longrightarrow> numEmpty g \<le> n \<Longrightarrow> completion g t \<Longrightarrow>
     solveBacktrack n g (guide n g t @ rest) = Some (True, t, rest)"
proof (induction n arbitrary: g)
  case 0
  then have fb: "findBestCell g = None"
    using numEmpty_pos[of _ _ g] by (cases "findBestCell g") (auto dest!: findBestCell_Some)
  then have "completeGrid g" by (auto simp: completeGrid_iff dest: findBestCell_None)
  with 0 have "g = t" by (intro complete_extends_eq)
  with fb show ?case by (simp add: solveBacktrack.simps)
next
  case (Suc m)
  show ?case
  proof (cases "findBestCell g")
    case None
    then have "completeGrid g" by (auto simp: completeGrid_iff dest: findBestCell_None)
    with Suc.prems have "g = t" by (intro complete_extends_eq)
    with None show ?thesis by (simp add: solveBacktrack.simps)
  next
    case (Some p)
    obtain row col where p: "p = (row, col)" by (cases p)
    from Some p have rc: "row < 9" "col < 9" and z: "cell g row col = 0"
      by (auto dest: findBestCell_Some)
    let ?cs = "getCandidates g row col" and ?v = "cell t row col"
    let ?k = "indexOf ?v ?cs"
    let ?h = "setCell g row col ?v"
    have vin: "?v \<in> set ?cs" by (rule completion_candidate[OF Suc.prems(3) rc])
    from indexOf_nth[OF vin] have k: "?k < length ?cs" "?cs ! ?k = ?v" by simp_all
    have valid: "isValidInGrid g row col ?v" and nz: "?v \<noteq> 0"
      using vin by (auto simp: set_getCandidates)
    have wfh: "wf_grid ?h" using Suc.prems(1) by simp
    have neh: "numEmpty ?h \<le> m"
      using numEmpty_setCell[OF Suc.prems(1) rc z nz] Suc.prems(2) by simp
    have cph: "completion ?h t" by (rule completion_setCell[OF Suc.prems(1,3) rc])
    have rec: "solveBacktrack m ?h (guide m ?h t @ rest) = Some (True, t, rest)"
      by (rule Suc.IH[OF wfh neh cph])
    have g: "guide (Suc m) g t @ rest =
        (?k # replicate (length ?cs - 1) 0) @ (guide m ?h t @ rest)"
      using Some p by simp
    have sh: "shuffle ?cs (guide (Suc m) g t @ rest)
        = (?v # take ?k ?cs @ drop (Suc ?k) ?cs, guide m ?h t @ rest)"
      unfolding g using shuffle_pick[OF k(1)] k(2) by simp
    show ?thesis
      using Some p sh valid rec by (simp add: solveBacktrack.simps)
  qed
qed

lemma alternatives: "list_all2 isAlternative altGrids unavoidable"
  by code_simp

lemma unavoidable_disjoint: "distinct (concat unavoidable)"
  by code_simp

lemma length_unavoidable: "length unavoidable = 6"
  by (simp add: unavoidable_def)

text \<open>
  The draws that steer the generator to \<open>solvedGrid\<close> are all 0: the value of \<open>solvedGrid\<close>
  is the first candidate at every cell the search picks.
\<close>

lemma guide_solvedGrid: "guide 81 emptyGrid solvedGrid = replicate 185 0"
  by code_simp

lemma zerosThenFive_guide:
  "zerosThenFive = guide 81 emptyGrid solvedGrid @ replicate 81 0 @ [5]"
proof -
  have "replicate 266 (0::nat) = replicate 185 0 @ replicate 81 0"
    by (simp add: replicate_add[symmetric])
  then show ?thesis by (simp add: zerosThenFive_def guide_solvedGrid)
qed

lemma guided_generation:
  "solveBacktrack 81 emptyGrid zerosThenFive = Some (True, solvedGrid, replicate 81 0 @ [5])"
  unfolding zerosThenFive_guide
  by (rule guide_correct[OF wf_emptyGrid numEmpty_le solvedGrid_completion])

lemma guided_positions: "shuffle allPositions (replicate 81 0 @ [5]) = (allPositions, [5])"
  using shuffle_zeros[of allPositions "[5]"] by (simp add: length_allPositions)

lemma guided_offset: "uniform_int 0 5 [5] = (5, [])"
  by (simp add: uniform_int_def)

lemma guided_run:
  obtains s' where
    "createPuzzle EXPERT (newGameState zerosThenFive) = Some (Inr s')"
    "removePre solvedGrid [] s'"
    "\<forall>a<9. \<forall>b<9. cell (board s') a b = cell solvedGrid a b \<or>
           (cell (board s') a b = 0 \<and> (a, b) \<in> set (take 56 allPositions))"
    "\<forall>a<9. \<forall>b<9. (a, b) \<in> set (take 56 allPositions) \<and> cell (board s') a b \<noteq> 0 \<longrightarrow>
            2 \<le> card (completions (setCell (board s') a b 0))"
proof -
  obtain S r0 ps r1 off r2 s' where
    h: "solveBacktrack 81 emptyGrid (rng (newGameState zerosThenFive)) = Some (True, S, r0)"
      "shuffle allPositions r0 = (ps, r1)" "uniform_int 0 5 r1 = (off, r2)"
      "createPuzzle EXPERT (newGameState zerosThenFive) = Some (Inr s')" "removePre S [] s'"
      "rng s' = r2" "wf_grid S" "completeGrid S" "legalGrid S"
      "\<forall>a<9. \<forall>b<9. cell (board s') a b = cell S a b \<or>
           (cell (board s') a b = 0 \<and>
            (a, b) \<in> set (take (nat (81 - (difficultyValue EXPERT + off))) ps))"
      "\<forall>a<9. \<forall>b<9. (a, b) \<in> set (take (nat (81 - (difficultyValue EXPERT + off))) ps) \<and>
            cell (board s') a b \<noteq> 0 \<longrightarrow>
            2 \<le> card (completions (setCell (board s') a b 0))"
    by (rule createPuzzle_run[of "newGameState zerosThenFive" EXPERT])
  from h(1) guided_generation have S: "S = solvedGrid" and r0: "r0 = replicate 81 0 @ [5]"
    by (simp_all add: newGameState_def)
  from h(2) guided_positions have ps: "ps = allPositions" and r1: "r1 = [5]"
    unfolding r0 by simp_all
  from h(3) guided_offset have off: "off = 5" unfolding r1 by simp
  have n: "nat (81 - (difficultyValue EXPERT + off)) = 56" unfolding off by simp
  show ?thesis
    by (rule that[OF h(4) h(5)[unfolded S] h(10)[unfolded S ps n] h(11)[unfolded ps n]])
qed

lemma unavoidable_hit:
  assumes pre: "removePre S [] s'" and t: "wf_grid t" "completeGrid t" "legalGrid t" "t \<noteq> S"
  shows "\<exists>a<9. \<exists>b<9. cell (board s') a b \<noteq> 0 \<and> cell t a b \<noteq> cell S a b"
proof (rule ccontr)
  assume "\<not> ?thesis"
  then have agree: "\<And>a b. a < 9 \<Longrightarrow> b < 9 \<Longrightarrow> cell (board s') a b \<noteq> 0 \<Longrightarrow> cell t a b = cell S a b"
    by blast
  note d = removePre_D[OF pre]
  have one: "card (completions (board s')) = 1"
    using hasUniqueSolution_legal[OF d(1) completion_legal[OF d(2)]] d(4) by simp
  have "extendsGrid (board s') t"
    unfolding extendsGrid_iff
  proof (intro allI impI)
    fix a b :: nat assume ab: "a < 9" "b < 9" "cell (board s') a b \<noteq> 0"
    with d(2) have "cell S a b = cell (board s') a b"
      by (simp add: completion_def extendsGrid_iff)
    with agree[OF ab] show "cell t a b = cell (board s') a b" by simp
  qed
  with t have "t \<in> completions (board s')" by (simp add: completions_def completion_def)
  moreover have "S \<in> completions (board s')" using d(2) by (simp add: completions_def)
  moreover from one obtain x where "completions (board s') = {x}" by (rule card_1_singletonE)
  ultimately show False using t(4) by simp
qed

lemma unavoidable_clue:
  assumes pre: "removePre solvedGrid [] s'" and u: "u \<in> set unavoidable"
  shows "set u \<subseteq> set (take 56 allPositions) \<and>
         (\<exists>p\<in>set u. case p of (a, b) \<Rightarrow> a < 9 \<and> b < 9 \<and> cell (board s') a b \<noteq> 0)"
proof -
  from u obtain i where i: "i < length unavoidable" "u = unavoidable ! i"
    by (auto simp: in_set_conv_nth)
  with alternatives have alt: "isAlternative (altGrids ! i) u"
    by (simp add: list_all2_conv_all_nth)
  let ?t = "altGrids ! i"
  from alt have t: "wf_grid ?t" "completeGrid ?t" "legalGrid ?t" "?t \<noteq> solvedGrid"
    and diff: "\<And>a b. a < 9 \<Longrightarrow> b < 9 \<Longrightarrow> cell ?t a b \<noteq> cell solvedGrid a b \<Longrightarrow> (a, b) \<in> set u"
    and sub: "set u \<subseteq> set (take 56 allPositions)"
    by (auto simp: isAlternative_def list_all_iff set_allPositions)
  from unavoidable_hit[OF pre t] obtain a b where
    ab: "a < 9" "b < 9" "cell (board s') a b \<noteq> 0" "cell ?t a b \<noteq> cell solvedGrid a b"
    by blast
  from diff[OF ab(1,2,4)] ab(1-3) sub show ?thesis by blast
qed

lemma hits_count:
  "distinct xs \<Longrightarrow> distinct (concat ds) \<Longrightarrow>
   (\<forall>d\<in>set ds. set d \<subseteq> set xs \<and> (\<exists>p\<in>set d. P p)) \<Longrightarrow> length ds \<le> length (filter P xs)"
proof (induction ds arbitrary: xs)
  case Nil
  then show ?case by simp
next
  case (Cons d ds)
  let ?ys = "filter (\<lambda>x. x \<notin> set d) xs"
  from Cons.prems(2) have dd: "distinct (concat ds)" and disj: "set d \<inter> set (concat ds) = {}"
    by auto
  have "distinct ?ys" using Cons.prems(1) by simp
  moreover have "\<forall>e\<in>set ds. set e \<subseteq> set ?ys \<and> (\<exists>p\<in>set e. P p)"
    using Cons.prems(3) disj by auto
  ultimately have ih: "length ds \<le> length (filter P ?ys)" using dd by (intro Cons.IH)
  from Cons.prems(3) obtain p where p: "p \<in> set d" "P p" "p \<in> set xs" by auto
  have "{x \<in> set ?ys. P x} \<subset> {x \<in> set xs. P x}" using p by auto
  then have "card {x \<in> set ?ys. P x} < card {x \<in> set xs. P x}"
    by (intro psubset_card_mono) auto
  moreover have "length (filter P ?ys) = card {x \<in> set ?ys. P x}"
    by (rule length_filter_card[OF \<open>distinct ?ys\<close>])
  moreover have "length (filter P xs) = card {x \<in> set xs. P x}"
    by (rule length_filter_card[OF Cons.prems(1)])
  ultimately have "Suc (length ds) \<le> length (filter P xs)" using ih by linarith
  then show ?case by simp
qed

lemma guided_clues:
  assumes pre: "removePre solvedGrid [] s'"
    and cells: "\<forall>a<9. \<forall>b<9. cell (board s') a b = cell solvedGrid a b \<or>
           (cell (board s') a b = 0 \<and> (a, b) \<in> set (take 56 allPositions))"
  shows "31 \<le> numClues (board s')"
proof -
  let ?P = "\<lambda>(a, b). cell (board s') a b \<noteq> 0"
  have split: "allPositions = take 56 allPositions @ drop 56 allPositions" by simp
  have d1: "distinct (take 56 allPositions)" using distinct_allPositions by simp
  have "\<forall>u\<in>set unavoidable. set u \<subseteq> set (take 56 allPositions) \<and> (\<exists>p\<in>set u. ?P p)"
    using unavoidable_clue[OF pre] by fastforce
  from hits_count[OF d1 unavoidable_disjoint this]
  have six: "6 \<le> length (filter ?P (take 56 allPositions))" by (simp add: length_unavoidable)
  have "?P p" if "p \<in> set (drop 56 allPositions)" for p
  proof -
    obtain a b where p: "p = (a, b)" by (cases p)
    from that have "p \<in> set allPositions" by (rule in_set_dropD)
    with p have ab: "a < 9" "b < 9" by (auto simp: set_allPositions)
    have "p \<notin> set (take 56 allPositions)"
      using that distinct_allPositions
      by (metis append_take_drop_id distinct_append disjoint_iff)
    with cells ab p have "cell (board s') a b = cell solvedGrid a b" by blast
    moreover from solvedGrid_completion ab have "cell solvedGrid a b \<noteq> 0"
      by (simp add: completion_def completeGrid_iff)
    ultimately show ?thesis using p by simp
  qed
  then have "filter ?P (drop 56 allPositions) = drop 56 allPositions" by (simp add: filter_id_conv)
  then have rest: "length (filter ?P (drop 56 allPositions)) = 25"
    by (simp add: length_allPositions)
  have "numClues (board s') =
      length (filter ?P (take 56 allPositions)) + length (filter ?P (drop 56 allPositions))"
    unfolding numClues_def by (subst split) (simp del: append_take_drop_id)
  with six rest show ?thesis by simp
qed

text \<open>
  C9, as stated, fails: in the run with the random sequence \<open>zerosThenFive\<close> (266 draws of
  0, then 5) the Expert puzzle has more than 30 filled cells.  The 25 positions the loop
  never visits stay filled, and each of the six sets of \<open>unavoidable\<close> keeps a filled cell,
  since a board that passes the uniqueness check cannot leave room for the alternative grid.
\<close>

theorem createPuzzle_expert_31_clues:
  "\<exists>s'. createPuzzle EXPERT (newGameState zerosThenFive) = Some (Inr s') \<and>
        30 < numClues (board s')"
proof -
  obtain s' where h: "createPuzzle EXPERT (newGameState zerosThenFive) = Some (Inr s')"
    "removePre solvedGrid [] s'"
    "\<forall>a<9. \<forall>b<9. cell (board s') a b = cell solvedGrid a b \<or>
           (cell (board s') a b = 0 \<and> (a, b) \<in> set (take 56 allPositions))"
    "\<forall>a<9. \<forall>b<9. (a, b) \<in> set (take 56 allPositions) \<and> cell (board s') a b \<noteq> 0 \<longrightarrow>
            2 \<le> card (completions (setCell (board s') a b 0))"
    by (rule guided_run)
  from guided_clues[OF h(2,3)] have "30 < numClues (board s')" by simp
  with h(1) show ?thesis by blast
qed

text \<open>
  C7, as stated, fails: the puzzle of the same run has a clue cell such that, once it is
  cleared, the solver returns with some random sequence a grid other than the reference
  solution.  Every visited cell that is still a clue is one: its removal was undone because
  the board then had a second completion.
\<close>

theorem createPuzzle_clue_needed:
  "\<exists>s' r c rng1 g1 r1. createPuzzle EXPERT (newGameState zerosThenFive) = Some (Inr s') \<and>
      r < 9 \<and> c < 9 \<and> fixed s' ! r ! c \<and>
      solveBacktrack 81 (setCell (board s') r c 0) rng1 = Some (True, g1, r1) \<and>
      g1 \<noteq> solution s'"
proof -
  obtain s' where h: "createPuzzle EXPERT (newGameState zerosThenFive) = Some (Inr s')"
    "removePre solvedGrid [] s'"
    "\<forall>a<9. \<forall>b<9. cell (board s') a b = cell solvedGrid a b \<or>
           (cell (board s') a b = 0 \<and> (a, b) \<in> set (take 56 allPositions))"
    "\<forall>a<9. \<forall>b<9. (a, b) \<in> set (take 56 allPositions) \<and> cell (board s') a b \<noteq> 0 \<longrightarrow>
            2 \<le> card (completions (setCell (board s') a b 0))"
    by (rule guided_run)
  note d = removePre_D[OF h(2)]
  have "[(1, 0), (1, 2), (5, 0), (5, 2)] \<in> set unavoidable" by (simp add: unavoidable_def)
  from unavoidable_clue[OF h(2) this] obtain a b where
    ab: "(a, b) \<in> set (take 56 allPositions)" "a < 9" "b < 9" "cell (board s') a b \<noteq> 0"
    by blast
  let ?b1 = "setCell (board s') a b 0"
  from h(4) ab have two: "2 \<le> card (completions ?b1)" by blast
  have "\<exists>t\<in>completions ?b1. t \<noteq> solvedGrid"
  proof (rule ccontr)
    assume "\<not> ?thesis"
    then have "completions ?b1 \<subseteq> {solvedGrid}" by blast
    then have "card (completions ?b1) \<le> card {solvedGrid}" by (intro card_mono) simp_all
    with two show False by simp
  qed
  then obtain t where t: "completion ?b1 t" "t \<noteq> solvedGrid"
    by (auto simp: completions_def)
  have wf1: "wf_grid ?b1" using d(1) by simp
  from guide_correct[OF wf1 numEmpty_le t(1), of "[]"]
  have run: "solveBacktrack 81 ?b1 (guide 81 ?b1 t) = Some (True, t, [])" by simp
  from d(5) ab have fx: "fixed s' ! a ! b" by (simp add: fixedMatches_iff)
  from h(1) ab(2,3) fx run t(2) d(3) show ?thesis by blast
qed

text \<open>
  In the same run cell (8,8) is never visited, so it is a clue; clearing it and solving
  succeeds with a completion of the cleared board.
\<close>

theorem createPuzzle_resolve_witness:
  "\<exists>s'. createPuzzle EXPERT (newGameState zerosThenFive) = Some (Inr s') \<and> fixed s' ! 8 ! 8 \<and>
     (\<exists>g1 r1. solveBacktrack 81 (setCell (board s') 8 8 0) [2, 7] = Some (True, g1, r1) \<and>
         completion (setCell (board s') 8 8 0) g1) \<and>
     (\<exists>r1. solveBacktrack 81 (board s') [2, 7] = Some (True, solution s', r1))"
proof -
  obtain s' where h: "createPuzzle EXPERT (newGameState zerosThenFive) = Some (Inr s')"
    "removePre solvedGrid [] s'"
    "\<forall>a<9. \<forall>b<9. cell (board s') a b = cell solvedGrid a b \<or>
           (cell (board s') a b = 0 \<and> (a, b) \<in> set (take 56 allPositions))"
    "\<forall>a<9. \<forall>b<9. (a, b) \<in> set (take 56 allPositions) \<and> cell (board s') a b \<noteq> 0 \<longrightarrow>
            2 \<le> card (completions (setCell (board s') a b 0))"
    by (rule guided_run)
  have "(8, 8) \<notin> set (take 56 allPositions)" by code_simp
  with h(3)[rule_format, of 8 8] have "cell (board s') 8 8 = cell solvedGrid 8 8" by simp
  moreover have "cell solvedGrid 8 8 = 2" by code_simp
  ultimately have "cell (board s') 8 8 \<noteq> 0" by simp
  with removePre_D(5)[OF h(2)] have fx: "fixed s' ! 8 ! 8" by (simp add: fixedMatches_iff)
  from createPuzzle_resolve[OF h(1) _ _ fx, of "[2, 7]"] h(1) fx show ?thesis by auto
qed

text \<open>
  In the same run some visited position is left filled, and clearing it again fails the
  uniqueness check; the board has at least the 25 clues aimed at.
\<close>

theorem createPuzzle_expert_witness:
  "\<exists>s' a b. createPuzzle EXPERT (newGameState zerosThenFive) = Some (Inr s') \<and>
      a < 9 \<and> b < 9 \<and> (a, b) \<in> set (take 56 allPositions) \<and> cell (board s') a b \<noteq> 0 \<and>
      hasUniqueSolution (s'\<lparr>board := setCell (board s') a b 0\<rparr>) = Some False \<and>
      25 \<le> numClues (board s') \<and> completions (board s') = {solvedGrid}"
  using createPuzzle_expert[of "newGameState zerosThenFive"]
proof (elim exE conjE)
  fix s' S r0 ps r1 off r2
  assume t1: "createPuzzle EXPERT (newGameState zerosThenFive) = Some (Inr s')"
    and t2: "solveBacktrack 81 emptyGrid (rng (newGameState zerosThenFive)) = Some (True, S, r0)"
    and t3: "shuffle allPositions r0 = (ps, r1)"
    and t4: "uniform_int 0 5 r1 = (off, r2)"
    and t5: "completions (board s') = {S}"
    and t6: "20 + off \<le> int (numClues (board s'))"
    and t7: "\<forall>a<9. \<forall>b<9. (a, b) \<in> set (take (nat (81 - (20 + off))) ps) \<and>
          cell (board s') a b \<noteq> 0 \<longrightarrow>
          2 \<le> card (completions (setCell (board s') a b 0)) \<and>
          hasUniqueSolution (s'\<lparr>board := setCell (board s') a b 0\<rparr>) = Some False"
  have rz: "rng (newGameState zerosThenFive) = zerosThenFive" by (simp add: newGameState_def)
  from t2 guided_generation have S: "S = solvedGrid" and r0: "r0 = replicate 81 0 @ [5]"
    unfolding rz by simp_all
  from t3 guided_positions have ps: "ps = allPositions" and r1: "r1 = [5]"
    unfolding r0 by simp_all
  from t4 guided_offset have off: "off = 5" unfolding r1 by simp
  have k: "nat (81 - (20 + (5::int))) = 56" by simp
  obtain s0 where h: "createPuzzle EXPERT (newGameState zerosThenFive) = Some (Inr s0)"
    "removePre solvedGrid [] s0"
    by (rule guided_run)
  from h(1) t1 have "s0 = s'" by simp
  with h(2) have pre: "removePre solvedGrid [] s'" by simp
  have "[(1, 0), (1, 2), (5, 0), (5, 2)] \<in> set unavoidable" by (simp add: unavoidable_def)
  from unavoidable_clue[OF pre this] obtain a b where
    ab: "(a, b) \<in> set (take 56 allPositions)" "a < 9" "b < 9" "cell (board s') a b \<noteq> 0"
    by blast
  from t7[unfolded off ps k] ab
  have f: "hasUniqueSolution (s'\<lparr>board := setCell (board s') a b 0\<rparr>) = Some False"
    by blast
  from t6 have n: "25 \<le> numClues (board s')" unfolding off by simp
  from t5 have c: "completions (board s') = {solvedGrid}" unfolding S .
  from t1 ab(2,3,1,4) f n c show ?thesis by (intro exI conjI)
qed

end
